theory Spec2Isabelle
  imports Main "HOL-Library.AList" "HOL-Library.Sublist" "HOL-Library.Multiset"
begin

section \<open>Shared JavaScript idioms\<close>

text \<open>
  \<open>x || d\<close> on an optional number: the default \<open>d\<close> is taken when \<open>x\<close> is
  \<open>undefined\<close>/\<open>null\<close> (\<open>None\<close>) or \<open>0\<close>.
\<close>

definition js_or :: "int option \<Rightarrow> int \<Rightarrow> int" where
  "js_or x d = (case x of None \<Rightarrow> d | Some v \<Rightarrow> if v = 0 then d else v)"

text \<open>Truthiness of a string: every string but the empty one.\<close>

definition truthy_string :: "string \<Rightarrow> bool" where
  "truthy_string k = (k \<noteq> [])"

text \<open>
  A JavaScript \<open>Map\<close> keeps its keys in insertion order: \<open>set\<close> on a key that is
  present replaces the value in place, \<open>set\<close> on a new key appends, \<open>delete\<close> removes.
  It is modelled as an association list with \<open>AList.update\<close>, \<open>AList.delete\<close> and
  \<open>map_of\<close>; its \<open>size\<close> is the length of the list.
\<close>

section \<open>CacheManager\<close>

record 'v cache_entry =
  data :: 'v
  createdAt :: int
  expiresAt :: int
  lastAccessed :: int

type_synonym 'v cache = "(string \<times> 'v cache_entry) list"

record cache_stats =
  hits :: "string \<Rightarrow> nat"
  misses :: "string \<Rightarrow> nat"
  sets :: "string \<Rightarrow> nat"
  evictions :: "string \<Rightarrow> nat"

record 'v cache_manager =
  caches :: "string \<Rightarrow> 'v cache option"
  ttls :: "string \<Rightarrow> int"
  limits :: "string \<Rightarrow> int"
  cstats :: cache_stats

datatype cache_error = InvalidCacheType string

text \<open>The six cache types of the constructor, with their default TTL (ms) and limit.\<close>

definition cache_types :: "string list" where
  "cache_types = [''tokenMetadata'', ''priceData'', ''riskAssessments'',
                  ''liquidityData'', ''holderData'', ''volumeData'']"

definition default_ttl :: "string \<Rightarrow> int" where
  "default_ttl t =
     (if t = ''tokenMetadata'' then 1800000
      else if t = ''priceData'' then 30000
      else if t = ''riskAssessments'' then 600000
      else if t = ''liquidityData'' then 60000
      else if t = ''holderData'' then 300000
      else 120000)"

definition default_limit :: "string \<Rightarrow> int" where
  "default_limit t =
     (if t = ''tokenMetadata'' then 5000
      else if t = ''riskAssessments'' then 3000
      else 2000)"

text \<open>
  The constructor: \<open>optTTL t\<close> and \<open>optLimit t\<close> are the options \<open><t>TTL\<close> and
  \<open><t>Limit\<close>; each falls back to its default through \<open>||\<close>.
\<close>

definition new_CacheManager ::
  "(string \<Rightarrow> int option) \<Rightarrow> (string \<Rightarrow> int option) \<Rightarrow> 'v cache_manager" where
  "new_CacheManager optTTL optLimit =
     \<lparr> caches = (\<lambda>t. if t \<in> set cache_types then Some [] else None),
       ttls = (\<lambda>t. js_or (optTTL t) (default_ttl t)),
       limits = (\<lambda>t. js_or (optLimit t) (default_limit t)),
       cstats = \<lparr> hits = (\<lambda>_. 0), misses = (\<lambda>_. 0), sets = (\<lambda>_. 0), evictions = (\<lambda>_. 0) \<rparr> \<rparr>"

definition bump :: "(string \<Rightarrow> nat) \<Rightarrow> string \<Rightarrow> (string \<Rightarrow> nat)" where
  "bump f t = f(t := f t + 1)"

text \<open>
  \<open>get(cacheType, key)\<close> at clock reading \<open>now\<close> (the two \<open>Date.now()\<close> reads of the
  synchronous body are the same instant). \<open>Inl\<close> is the thrown error; the returned
  value is \<open>None\<close> for JavaScript's \<open>null\<close>.
\<close>

definition CacheManager_get ::
  "int \<Rightarrow> string \<Rightarrow> string \<Rightarrow> 'v cache_manager \<Rightarrow> cache_error + ('v option \<times> 'v cache_manager)" where
  "CacheManager_get now cacheType key m =
     (case caches m cacheType of
        None \<Rightarrow> Inl (InvalidCacheType cacheType)
      | Some cache \<Rightarrow>
          (case map_of cache key of
             None \<Rightarrow>
               Inr (None, m\<lparr>cstats := (cstats m)\<lparr>misses := bump (misses (cstats m)) cacheType\<rparr>\<rparr>)
           | Some entry \<Rightarrow>
               if now > expiresAt entry then
                 Inr (None,
                      m\<lparr>caches := (caches m)(cacheType \<mapsto> AList.delete key cache),
                        cstats := (cstats m)\<lparr>misses := bump (misses (cstats m)) cacheType\<rparr>\<rparr>)
               else
                 Inr (Some (data entry),
                      m\<lparr>caches := (caches m)(cacheType \<mapsto>
                                    AList.update key (entry\<lparr>lastAccessed := now\<rparr>) cache),
                        cstats := (cstats m)\<lparr>hits := bump (hits (cstats m)) cacheType\<rparr>\<rparr>)))"

text \<open>
  The scan of \<open>evictOldest\<close>: \<open>oldestKey\<close> starts as \<open>null\<close> and \<open>oldestTime\<close> as
  \<open>Infinity\<close> (both \<open>None\<close>); an entry replaces them when its \<open>lastAccessed\<close> is
  strictly smaller.
\<close>

fun oldest_scan :: "'v cache \<Rightarrow> string option \<times> int option \<Rightarrow> string option \<times> int option" where
  "oldest_scan [] acc = acc"
| "oldest_scan ((key, entry) # rest) (oldestKey, oldestTime) =
     (if (case oldestTime of None \<Rightarrow> True | Some t \<Rightarrow> lastAccessed entry < t)
      then oldest_scan rest (Some key, Some (lastAccessed entry))
      else oldest_scan rest (oldestKey, oldestTime))"

text \<open>
  \<open>evictOldest(cacheType)\<close>, called by \<open>set\<close> on an existing cache type only. The final
  test is \<open>if (oldestKey)\<close>: the key is deleted when it is truthy.
\<close>

definition CacheManager_evictOldest :: "string \<Rightarrow> 'v cache_manager \<Rightarrow> 'v cache_manager" where
  "CacheManager_evictOldest cacheType m =
     (case caches m cacheType of
        None \<Rightarrow> m
      | Some cache \<Rightarrow>
          if length cache = 0 then m
          else (case fst (oldest_scan cache (None, None)) of
                  None \<Rightarrow> m
                | Some oldestKey \<Rightarrow>
                    if truthy_string oldestKey then
                      m\<lparr>caches := (caches m)(cacheType \<mapsto> AList.delete oldestKey cache),
                        cstats := (cstats m)\<lparr>evictions := bump (evictions (cstats m)) cacheType\<rparr>\<rparr>
                    else m))"

text \<open>
  \<open>set(cacheType, key, data, customTTL)\<close> at clock reading \<open>now\<close>; \<open>customTTL\<close> is
  \<open>None\<close> for \<open>null\<close>.
\<close>

definition CacheManager_set ::
  "int \<Rightarrow> string \<Rightarrow> string \<Rightarrow> 'v \<Rightarrow> int option \<Rightarrow> 'v cache_manager
     \<Rightarrow> cache_error + (bool \<times> 'v cache_manager)" where
  "CacheManager_set now cacheType key d customTTL m =
     (case caches m cacheType of
        None \<Rightarrow> Inl (InvalidCacheType cacheType)
      | Some cache \<Rightarrow>
          let ttl = js_or customTTL (ttls m cacheType);
              m1 = (if int (length cache) \<ge> limits m cacheType
                    then CacheManager_evictOldest cacheType m else m);
              entry = \<lparr> data = d, createdAt = now, expiresAt = now + ttl, lastAccessed = now \<rparr>
          in Inr (True,
                  m1\<lparr>caches := (caches m1)(cacheType \<mapsto>
                                 AList.update key entry (the (caches m1 cacheType))),
                     cstats := (cstats m1)\<lparr>sets := bump (sets (cstats m1)) cacheType\<rparr>\<rparr>))"

text \<open>The entries of a cache type, and their number (\<open>cache.size\<close>).\<close>

definition entries_of :: "'v cache_manager \<Rightarrow> string \<Rightarrow> 'v cache" where
  "entries_of m cacheType = (case caches m cacheType of None \<Rightarrow> [] | Some c \<Rightarrow> c)"

definition size_of :: "'v cache_manager \<Rightarrow> string \<Rightarrow> nat" where
  "size_of m cacheType = length (entries_of m cacheType)"

text \<open>Running \<open>set\<close> and ignoring the returned flag; a thrown error leaves the manager as it was.\<close>

definition set_state :: "int \<Rightarrow> string \<Rightarrow> string \<Rightarrow> 'v \<Rightarrow> int option \<Rightarrow> 'v cache_manager \<Rightarrow> 'v cache_manager" where
  "set_state now cacheType key d customTTL m =
     (case CacheManager_set now cacheType key d customTTL m of Inl _ \<Rightarrow> m | Inr (_, m') \<Rightarrow> m')"

definition get_value :: "int \<Rightarrow> string \<Rightarrow> string \<Rightarrow> 'v cache_manager \<Rightarrow> 'v option" where
  "get_value now cacheType key m =
     (case CacheManager_get now cacheType key m of Inl _ \<Rightarrow> None | Inr (v, _) \<Rightarrow> v)"

definition get_state :: "int \<Rightarrow> string \<Rightarrow> string \<Rightarrow> 'v cache_manager \<Rightarrow> 'v cache_manager" where
  "get_state now cacheType key m =
     (case CacheManager_get now cacheType key m of Inl _ \<Rightarrow> m | Inr (_, m') \<Rightarrow> m')"

definition lookup :: "'v cache_manager \<Rightarrow> string \<Rightarrow> string \<Rightarrow> 'v cache_entry option" where
  "lookup m cacheType key = map_of (entries_of m cacheType) key"

text \<open>Two concrete managers: the default one, and one whose \<open>priceData\<close> limit is 1.\<close>

definition default_cache :: "nat cache_manager" where
  "default_cache = new_CacheManager (\<lambda>_. None) (\<lambda>_. None)"

definition small_cache :: "nat cache_manager" where
  "small_cache = new_CacheManager (\<lambda>_. None) (\<lambda>t. if t = ''priceData'' then Some 1 else None)"

text \<open>
  A cache type in good order: its keys are distinct and truthy, and its size is within
  its limit, which is at least 1.
\<close>

definition cache_ok :: "'v cache_manager \<Rightarrow> string \<Rightarrow> bool" where
  "cache_ok m t =
     (\<exists>c. caches m t = Some c \<and> distinct (map fst c) \<and> (\<forall>k \<in> fst ` set c. truthy_string k)
          \<and> int (length c) \<le> limits m t \<and> 1 \<le> limits m t)"

text \<open>A sequence of \<open>set\<close> calls, each with its clock reading.\<close>

fun set_all :: "(int \<times> string \<times> string \<times> 'v \<times> int option) list \<Rightarrow> 'v cache_manager \<Rightarrow> 'v cache_manager" where
  "set_all [] m = m"
| "set_all ((now, t, key, d, ttl) # rest) m = set_all rest (set_state now t key d ttl m)"

section \<open>BatchManager\<close>

record batch_item =
  item_key :: string
  addedAt :: int

record batch_options =
  maxSize :: int
  maxWait :: int
  minSize :: int

text \<open>
  One entry of \<open>this.batches\<close>. \<open>items\<close> and \<open>promises\<close> are JavaScript Maps keyed
  by the member key. A promise is named by a number, the identity of the
  \<open>{resolve, reject}\<close> pair made by one call of \<open>addToBatch\<close>; a batch function is
  named by a number too, the identity of the closure passed in. \<open>timeout\<close> is the
  pending timer (with the time it is due) or \<open>null\<close>.
\<close>

record batch =
  items :: "(string \<times> batch_item) list"
  promises :: "(string \<times> nat) list"
  batchFunction :: nat
  timeout :: "int option"
  options :: batch_options

text \<open>The counters of \<open>this.stats\<close>; \<open>averageBatchSize\<close> is their quotient and is left out.\<close>

record batch_stats =
  totalRequests :: nat
  batchedRequests :: nat
  totalBatches :: nat
  totalBatchSize :: nat
  timeouts :: nat
  errors :: nat

record batch_manager =
  maxBatchSize :: int
  maxWaitTime :: int
  minBatchSize :: int
  batches :: "string \<Rightarrow> batch option"
  bstats :: batch_stats

definition new_BatchManager :: "int option \<Rightarrow> int option \<Rightarrow> int option \<Rightarrow> batch_manager" where
  "new_BatchManager optMaxBatchSize optMaxWaitTime optMinBatchSize =
     \<lparr> maxBatchSize = js_or optMaxBatchSize 10,
       maxWaitTime = js_or optMaxWaitTime 2000,
       minBatchSize = js_or optMinBatchSize 2,
       batches = (\<lambda>_. None),
       bstats = \<lparr> totalRequests = 0, batchedRequests = 0, totalBatches = 0,
                  totalBatchSize = 0, timeouts = 0, errors = 0 \<rparr> \<rparr>"

text \<open>The \<open>options\<close> argument of \<open>addToBatch\<close>; \<open>{}\<close> is all \<open>None\<close>.\<close>

record add_options =
  opt_maxSize :: "int option"
  opt_maxWait :: "int option"
  opt_minSize :: "int option"

datatype reason = Timeout | Full | Manual

text \<open>
  How a promise ends: resolved with a value, or rejected with the error
  \<open>No result for key: <key>\<close> or with the error the batch function threw.
\<close>

datatype 'e failure = NoResultForKey string | Thrown 'e

datatype ('v, 'e) settlement = Resolved 'v | Rejected "'e failure"

text \<open>
  What one flush did: the batch function it invoked, the keys it passed, and the
  promises it settled, in the order of the loop over \<open>promises\<close>.
\<close>

record ('v, 'e) flush =
  invoked_fn :: nat
  invoked_keys :: "string list"
  settlements :: "(nat \<times> ('v, 'e) settlement) list"

text \<open>
  The batch functions are given by \<open>env\<close>: \<open>env f keys\<close> is what the function named
  \<open>f\<close> does on \<open>keys\<close>, \<open>Inl error\<close> when it rejects and \<open>Inr results\<close> when it
  returns the object \<open>results\<close>, where \<open>results key = None\<close> stands for
  \<open>results[key] === undefined\<close>.

  \<open>processBatch(batchType, reason)\<close>. The part after \<open>await batchFunction(items)\<close>
  works on the copies taken before the batch was cleared, so it is computed here at once.
\<close>

definition BatchManager_processBatch ::
  "(nat \<Rightarrow> string list \<Rightarrow> 'e + (string \<Rightarrow> 'v option)) \<Rightarrow> string \<Rightarrow> reason \<Rightarrow> batch_manager
     \<Rightarrow> batch_manager \<times> ('v, 'e) flush option" where
  "BatchManager_processBatch env batchType why m =
     (case batches m batchType of
        None \<Rightarrow> (m, None)
      | Some batch0 \<Rightarrow>
          if length (items batch0) = 0 then (m, None)
          else
            let batch1 = batch0\<lparr>timeout := None\<rparr> in
            if int (length (items batch1)) < minSize (options batch1) \<and> why \<noteq> Timeout
            then (m\<lparr>batches := (batches m)(batchType \<mapsto> batch1)\<rparr>, None)
            else
              let keys = map fst (items batch1);
                  proms = promises batch1;
                  f = batchFunction batch1;
                  batch2 = batch1\<lparr>items := [], promises := []\<rparr>;
                  st = bstats m;
                  st1 = st\<lparr>batchedRequests := batchedRequests st + length keys,
                           totalBatches := totalBatches st + 1,
                           totalBatchSize := totalBatchSize st + length keys,
                           timeouts := (if why = Timeout then timeouts st + 1 else timeouts st)\<rparr>
              in (case env f keys of
                    Inr results \<Rightarrow>
                      (m\<lparr>batches := (batches m)(batchType \<mapsto> batch2), bstats := st1\<rparr>,
                       Some \<lparr> invoked_fn = f, invoked_keys = keys,
                              settlements =
                                map (\<lambda>(key, p).
                                       (p, case results key of
                                             Some r \<Rightarrow> Resolved r
                                           | None \<Rightarrow> Rejected (NoResultForKey key))) proms \<rparr>)
                  | Inl error \<Rightarrow>
                      (m\<lparr>batches := (batches m)(batchType \<mapsto> batch2),
                         bstats := st1\<lparr>errors := errors st1 + 1\<rparr>\<rparr>,
                       Some \<lparr> invoked_fn = f, invoked_keys = keys,
                              settlements = map (\<lambda>(key, p). (p, Rejected (Thrown error))) proms \<rparr>)))"

text \<open>
  The first block of \<open>addToBatch\<close>: the entry of the batch type is created, from
  the arguments of this call, only when \<open>this.batches\<close> has none.
\<close>

definition get_or_create_batch :: "string \<Rightarrow> nat \<Rightarrow> add_options \<Rightarrow> batch_manager \<Rightarrow> batch_manager" where
  "get_or_create_batch batchType f opts m =
     (case batches m batchType of
        Some _ \<Rightarrow> m
      | None \<Rightarrow>
          m\<lparr>batches := (batches m)(batchType \<mapsto>
               \<lparr> items = [], promises = [], batchFunction = f, timeout = None,
                 options = \<lparr> maxSize = js_or (opt_maxSize opts) (maxBatchSize m),
                             maxWait = js_or (opt_maxWait opts) (maxWaitTime m),
                             minSize = js_or (opt_minSize opts) (minBatchSize m) \<rparr> \<rparr>)\<rparr>)"

text \<open>
  The second block: \<open>batch.items.set\<close>, \<open>batch.promises.set\<close>, and the timer, set
  when this is the only item and no timer is pending.
\<close>

definition add_member :: "int \<Rightarrow> string \<Rightarrow> nat \<Rightarrow> batch \<Rightarrow> batch" where
  "add_member now key p batch0 =
     (let batch1 = batch0\<lparr>items := AList.update key \<lparr> item_key = key, addedAt = now \<rparr> (items batch0),
                          promises := AList.update key p (promises batch0)\<rparr>
      in if length (items batch1) = 1 \<and> timeout batch1 = None
         then batch1\<lparr>timeout := Some (now + maxWait (options batch1))\<rparr>
         else batch1)"

text \<open>
  \<open>addToBatch(batchType, key, batchFunction, options)\<close> at clock reading \<open>now\<close>;
  \<open>p\<close> names the promise the call returns.
\<close>

definition BatchManager_addToBatch ::
  "(nat \<Rightarrow> string list \<Rightarrow> 'e + (string \<Rightarrow> 'v option)) \<Rightarrow> int \<Rightarrow> string \<Rightarrow> string \<Rightarrow> nat
     \<Rightarrow> add_options \<Rightarrow> nat \<Rightarrow> batch_manager \<Rightarrow> batch_manager \<times> ('v, 'e) flush option" where
  "BatchManager_addToBatch env now batchType key f opts p m =
     (let m1 = m\<lparr>bstats := (bstats m)\<lparr>totalRequests := totalRequests (bstats m) + 1\<rparr>\<rparr>;
          m2 = get_or_create_batch batchType f opts m1;
          batch2 = add_member now key p (the (batches m2 batchType));
          m3 = m2\<lparr>batches := (batches m2)(batchType \<mapsto> batch2)\<rparr>
      in if int (length (items batch2)) \<ge> maxSize (options batch2)
         then BatchManager_processBatch env batchType Full m3
         else (m3, None))"

text \<open>
  What can happen to a batch manager: a call of \<open>addToBatch\<close>, the timer of a batch
  type firing (it exists only while \<open>timeout\<close> is set), and a manual
  \<open>processBatch\<close> as \<open>processAllBatches\<close> makes. Each carries its clock reading.
\<close>

datatype bm_event =
  Add int string string nat add_options nat
| TimerFires string
| ProcessManually string

definition bm_step ::
  "(nat \<Rightarrow> string list \<Rightarrow> 'e + (string \<Rightarrow> 'v option)) \<Rightarrow> bm_event \<Rightarrow> batch_manager
     \<Rightarrow> batch_manager \<times> ('v, 'e) flush option" where
  "bm_step env ev m =
     (case ev of
        Add now batchType key f opts p \<Rightarrow> BatchManager_addToBatch env now batchType key f opts p m
      | TimerFires batchType \<Rightarrow>
          (case batches m batchType of
             None \<Rightarrow> (m, None)
           | Some b \<Rightarrow> if timeout b = None then (m, None)
                       else BatchManager_processBatch env batchType Timeout m)
      | ProcessManually batchType \<Rightarrow> BatchManager_processBatch env batchType Manual m)"

fun bm_run ::
  "(nat \<Rightarrow> string list \<Rightarrow> 'e + (string \<Rightarrow> 'v option)) \<Rightarrow> bm_event list \<Rightarrow> batch_manager
     \<Rightarrow> batch_manager \<times> ('v, 'e) flush list" where
  "bm_run env [] m = (m, [])"
| "bm_run env (ev # evs) m =
     (case bm_step env ev m of
        (m1, fl) \<Rightarrow>
          (case bm_run env evs m1 of
             (m2, fls) \<Rightarrow> (m2, (case fl of None \<Rightarrow> [] | Some x \<Rightarrow> [x]) @ fls)))"

text \<open>
  What a flush owes the promise stored under a key: the batch function's error when
  it rejected, the value of the key in the returned object, or the error
  \<open>No result for key\<close>.
\<close>

definition outcome_for :: "(nat \<Rightarrow> string list \<Rightarrow> 'e + (string \<Rightarrow> 'v option)) \<Rightarrow> ('v, 'e) flush \<Rightarrow> string
     \<Rightarrow> ('v, 'e) settlement" where
  "outcome_for env fr key =
     (case env (invoked_fn fr) (invoked_keys fr) of
        Inl error \<Rightarrow> Rejected (Thrown error)
      | Inr results \<Rightarrow> (case results key of Some r \<Rightarrow> Resolved r | None \<Rightarrow> Rejected (NoResultForKey key)))"

text \<open>The batch of a type holds a promise under a key.\<close>

definition holds_promise :: "batch_manager \<Rightarrow> string \<Rightarrow> string \<Rightarrow> nat \<Rightarrow> bool" where
  "holds_promise m batchType key p =
     (\<exists>b. batches m batchType = Some b \<and> map_of (promises b) key = Some p)"

text \<open>
  A batch function for examples: it returns the object \<open>{a: 1, b: 2}\<close>, whatever
  keys it is given.
\<close>

definition example_env :: "nat \<Rightarrow> string list \<Rightarrow> string + (string \<Rightarrow> nat option)" where
  "example_env f keys = Inr [''a'' \<mapsto> 1, ''b'' \<mapsto> 2]"

definition no_options :: add_options where
  "no_options = \<lparr> opt_maxSize = None, opt_maxWait = None, opt_minSize = None \<rparr>"

text \<open>A batch function that rejects with the error \<open>boom\<close>.\<close>

definition failing_env :: "nat \<Rightarrow> string list \<Rightarrow> string + (string \<Rightarrow> nat option)" where
  "failing_env f keys = Inl ''boom''"

definition default_batches :: batch_manager where
  "default_batches = new_BatchManager None None None"

text \<open>The keys \<open>a\<close> and \<open>c\<close> added to the batch type \<open>prices\<close>, not yet flushed.\<close>

definition two_members :: batch_manager where
  "two_members = fst (bm_run example_env
       [Add 0 ''prices'' ''a'' 0 no_options 1, Add 1 ''prices'' ''c'' 0 no_options 2] default_batches)"





section \<open>RPCManager\<close>

record endpoint =
  name :: string
  http :: string
  ws :: string
  priority :: nat
  maxRPS :: nat

record rpc_manager =
  currentEndpointIndex :: nat
  endpoints :: "endpoint list"
  failureCounts :: "string \<Rightarrow> nat option"
  lastFailureTime :: "string \<Rightarrow> int option"
  maxFailures :: nat
  cooldownPeriod :: int

text \<open>
  \<open>loadEndpoints()\<close>; \<open>helius\<close> is \<open>apiKeys.helius\<close> as read from the key file,
  \<open>None\<close> when there is none. The Helius endpoint is listed when the key is truthy.
\<close>

definition loadEndpoints :: "string option \<Rightarrow> endpoint list" where
  "loadEndpoints helius =
     (case helius of
        None \<Rightarrow> []
      | Some k \<Rightarrow>
          if truthy_string k
          then [\<lparr> name = ''Helius (Primary)'',
                  http = ''https://rpc.helius.xyz/?api-key='' @ k,
                  ws = ''wss://rpc.helius.xyz/?api-key='' @ k,
                  priority = 1, maxRPS = 100 \<rparr>]
          else [])
     @ [\<lparr> name = ''dRPC (Free)'', http = ''https://solana.drpc.org'',
           ws = ''wss://solana.drpc.org'', priority = 2, maxRPS = 10 \<rparr>,
        \<lparr> name = ''Solana Foundation (Backup)'', http = ''https://api.mainnet-beta.solana.com'',
           ws = ''wss://api.mainnet-beta.solana.com'', priority = 3, maxRPS = 2 \<rparr>]"

definition new_RPCManager :: "string option \<Rightarrow> rpc_manager" where
  "new_RPCManager helius =
     \<lparr> currentEndpointIndex = 0, endpoints = loadEndpoints helius,
       failureCounts = (\<lambda>_. None), lastFailureTime = (\<lambda>_. None),
       maxFailures = 5, cooldownPeriod = 60000 \<rparr>"

text \<open>\<open>getCurrentEndpoint()\<close>: an index outside the array gives \<open>undefined\<close> (\<open>None\<close>).\<close>

definition RPCManager_getCurrentEndpoint :: "rpc_manager \<Rightarrow> endpoint option" where
  "RPCManager_getCurrentEndpoint m =
     (if currentEndpointIndex m < length (endpoints m)
      then Some (endpoints m ! currentEndpointIndex m) else None)"

text \<open>\<open>isEndpointInCooldown(endpointName)\<close> at clock reading \<open>now\<close>.\<close>

definition RPCManager_isEndpointInCooldown :: "int \<Rightarrow> string \<Rightarrow> rpc_manager \<Rightarrow> bool" where
  "RPCManager_isEndpointInCooldown now endpointName m =
     (let failureCount = (case failureCounts m endpointName of None \<Rightarrow> 0 | Some c \<Rightarrow> c);
          lastFailure = (case lastFailureTime m endpointName of None \<Rightarrow> 0 | Some t \<Rightarrow> t)
      in if failureCount \<ge> maxFailures m then now - lastFailure < cooldownPeriod m else False)"

text \<open>
  The loop of \<open>switchToNextEndpoint()\<close>, with its counter \<open>attempts\<close>. The body has
  no \<open>await\<close>, so it runs at one clock reading.
\<close>

function switch_loop :: "int \<Rightarrow> nat \<Rightarrow> rpc_manager \<Rightarrow> bool \<times> rpc_manager" where
  "switch_loop now attempts m =
     (let totalEndpoints = length (endpoints m) in
      if attempts < totalEndpoints then
        (let m' = m\<lparr>currentEndpointIndex := (currentEndpointIndex m + 1) mod totalEndpoints\<rparr>;
             nextEndpoint = endpoints m' ! currentEndpointIndex m'
         in if RPCManager_isEndpointInCooldown now (name nextEndpoint) m'
            then switch_loop now (attempts + 1) m'
            else (True, m'))
      else (False, m))"
  by pat_completeness auto
termination
  by (relation "measure (\<lambda>(now, attempts, m). length (endpoints m) - attempts)") auto

definition RPCManager_switchToNextEndpoint :: "int \<Rightarrow> rpc_manager \<Rightarrow> bool \<times> rpc_manager" where
  "RPCManager_switchToNextEndpoint now m = switch_loop now 0 m"

text \<open>\<open>handleEndpointFailure(endpointName)\<close> at clock reading \<open>now\<close>.\<close>

definition RPCManager_handleEndpointFailure :: "int \<Rightarrow> string \<Rightarrow> rpc_manager \<Rightarrow> rpc_manager" where
  "RPCManager_handleEndpointFailure now endpointName m =
     (let currentCount = (case failureCounts m endpointName of None \<Rightarrow> 0 | Some c \<Rightarrow> c);
          m1 = m\<lparr>failureCounts := (failureCounts m)(endpointName \<mapsto> currentCount + 1),
                 lastFailureTime := (lastFailureTime m)(endpointName \<mapsto> now)\<rparr>
      in if currentCount + 1 \<ge> maxFailures m1
         then snd (RPCManager_switchToNextEndpoint now m1)
         else m1)"

definition RPCManager_resetFailureCount :: "string \<Rightarrow> rpc_manager \<Rightarrow> rpc_manager" where
  "RPCManager_resetFailureCount endpointName m =
     m\<lparr>failureCounts := (failureCounts m)(endpointName \<mapsto> 0),
       lastFailureTime := (lastFailureTime m)(endpointName := None)\<rparr>"

text \<open>
  What changes the manager: a failure or a success reported for an endpoint (by
  \<open>createConnection\<close> and \<open>createWebSocket\<close>), and the rotation that
  \<open>retryWithFallback\<close> asks for. Each is paired with its clock reading.
\<close>

datatype rpc_event = EndpointFails string | EndpointSucceeds string | Rotate

fun rpc_step :: "int \<times> rpc_event \<Rightarrow> rpc_manager \<Rightarrow> rpc_manager" where
  "rpc_step (now, EndpointFails n) m = RPCManager_handleEndpointFailure now n m"
| "rpc_step (now, EndpointSucceeds n) m = RPCManager_resetFailureCount n m"
| "rpc_step (now, Rotate) m = snd (RPCManager_switchToNextEndpoint now m)"

fun rpc_run :: "(int \<times> rpc_event) list \<Rightarrow> rpc_manager \<Rightarrow> rpc_manager" where
  "rpc_run [] m = m"
| "rpc_run (ev # evs) m = rpc_run evs (rpc_step ev m)"

text \<open>Whether the endpoint at a position of the list is in cooldown.\<close>

definition cooldown_at :: "int \<Rightarrow> rpc_manager \<Rightarrow> nat \<Rightarrow> bool" where
  "cooldown_at now m i = RPCManager_isEndpointInCooldown now (name (endpoints m ! i)) m"

text \<open>Whether every endpoint of the list is in cooldown.\<close>

definition all_in_cooldown :: "int \<Rightarrow> rpc_manager \<Rightarrow> bool" where
  "all_in_cooldown now m = list_all (\<lambda>e. RPCManager_isEndpointInCooldown now (name e) m) (endpoints m)"

text \<open>
  Three histories of a manager with a Helius key. In the first, the Helius endpoint
  fails five times at time 0. In the second, each endpoint in turn fails five times,
  at the times 0, 10 and 20. In the third, the Helius endpoint has failed four times,
  one short of \<open>maxFailures\<close>.
\<close>

definition helius_failed :: rpc_manager where
  "helius_failed = rpc_run (replicate 5 (0, EndpointFails ''Helius (Primary)''))
                     (new_RPCManager (Some ''key''))"

definition helius_failing :: rpc_manager where
  "helius_failing = rpc_run (replicate 4 (0, EndpointFails ''Helius (Primary)''))
                      (new_RPCManager (Some ''key''))"

definition all_failed :: rpc_manager where
  "all_failed = rpc_run (replicate 5 (0, EndpointFails ''Helius (Primary)'')
                         @ replicate 5 (10, EndpointFails ''dRPC (Free)'')
                         @ replicate 5 (20, EndpointFails ''Solana Foundation (Backup)''))
                  (new_RPCManager (Some ''key''))"

text \<open>
  What every reachable manager satisfies: the endpoint list is the loaded one and the
  current index is inside it.
\<close>

definition rotation_ok :: "string option \<Rightarrow> rpc_manager \<Rightarrow> bool" where
  "rotation_ok helius m = (endpoints m = loadEndpoints helius
      \<and> currentEndpointIndex m < length (endpoints m))"

section \<open>RequestQueue\<close>

subsection \<open>Errors and their classification\<close>

text \<open>
  What an operation can throw: a falsy value (\<open>null\<close>, \<open>undefined\<close>, \<open>''\<close>, \<open>0\<close>), or a
  value with an optional string \<open>message\<close> and the string its \<open>toString()\<close> gives.
\<close>

datatype js_error = FalsyError | ErrorValue "string option" string

text \<open>\<open>error.message || error.toString()\<close>.\<close>

fun message_of :: "string option \<Rightarrow> string \<Rightarrow> string" where
  "message_of None str = str"
| "message_of (Some msg) str = (if truthy_string msg then msg else str)"

text \<open>\<open>message.includes(part)\<close>.\<close>

definition str_includes :: "string \<Rightarrow> string \<Rightarrow> bool" where
  "str_includes message part = sublist part message"

fun isRateLimitError :: "js_error \<Rightarrow> bool" where
  "isRateLimitError FalsyError = False"
| "isRateLimitError (ErrorValue msg str) =
     (let message = message_of msg str in
        str_includes message ''429'' \<or> str_includes message ''Too Many Requests''
      \<or> str_includes message ''rate limit'' \<or> str_includes message ''Rate limit'')"

fun isRetriableError :: "js_error \<Rightarrow> bool" where
  "isRetriableError FalsyError = False"
| "isRetriableError (ErrorValue msg str) =
     (let message = message_of msg str in
        str_includes message ''timeout'' \<or> str_includes message ''ECONNRESET''
      \<or> str_includes message ''ETIMEDOUT'' \<or> str_includes message ''503''
      \<or> str_includes message ''502'' \<or> str_includes message ''network'')"

text \<open>An error the queue retries: rate-limit or transient. Every other error is terminal.\<close>

definition retried_error :: "js_error \<Rightarrow> bool" where
  "retried_error e = (isRateLimitError e \<or> isRetriableError e)"

subsection \<open>State\<close>

text \<open>
  A queued request. \<open>rid\<close> is the identity of the request object, standing for its
  \<open>fn\<close>, \<open>resolve\<close> and \<open>reject\<close>: the promise returned by \<open>enqueue\<close>.
\<close>

record request =
  rid :: nat
  rq_priority :: int
  attempts :: nat
  startTime :: int

text \<open>The counters of \<open>this.stats\<close>; \<open>averageResponseTime\<close> is a quotient of two of them.\<close>

record rq_stats =
  totalRequests_q :: nat
  successfulRequests :: nat
  failedRequests :: nat
  rateLimitErrors :: nat
  totalResponseTime :: int

text \<open>What one call of \<open>request.fn()\<close> ends with, and how a promise is settled.\<close>

datatype 'v attempt_result = Succeeds 'v | Fails js_error

datatype 'v promise_result = Fulfilled 'v | RejectedWith js_error

text \<open>
  The fields of the object, then the event loop around it: the clock, the calls of
  \<open>executeRequest\<close> suspended at \<open>await request.fn()\<close> (with their local
  \<open>startTime\<close>), the pending retry timers of \<open>handleRequestError\<close> and the pending
  timers of \<open>processQueue\<close> (with the time each is due), and the time at which the
  \<open>processQueue\<close> loop suspended in \<open>await this.waitForRateLimit()\<close> wakes up. The
  last two fields record what was observed: every \<open>resolve\<close>/\<open>reject\<close> call, and
  every start of an operation with the time \<open>recordRequestTime\<close> stored.
\<close>

record 'v request_queue =
  maxRequestsPerSecond :: int
  maxConcurrent :: int
  retryAttempts :: int
  retryDelay :: int
  queue :: "request list"
  processing :: bool
  activeRequests :: int
  requestTimes :: "int list"
  qstats :: rq_stats
  clock :: int
  next_rid :: nat
  in_flight :: "(request \<times> int) list"
  retry_timers :: "(int \<times> request) list"
  poll_timers :: "int list"
  waiting :: "int option"
  settled :: "(nat \<times> 'v promise_result) list"
  started :: "(nat \<times> int) list"

record rq_options =
  opt_maxRequestsPerSecond :: "nat option"
  opt_maxConcurrent :: "nat option"
  opt_retryAttempts :: "nat option"
  opt_retryDelay :: "nat option"

text \<open>The constructor, run at clock reading \<open>t0\<close>. The options are counts.\<close>

definition new_RequestQueue :: "rq_options \<Rightarrow> int \<Rightarrow> 'v request_queue" where
  "new_RequestQueue opts t0 =
     \<lparr> maxRequestsPerSecond = js_or (map_option int (opt_maxRequestsPerSecond opts)) 10,
       maxConcurrent = js_or (map_option int (opt_maxConcurrent opts)) 5,
       retryAttempts = js_or (map_option int (opt_retryAttempts opts)) 3,
       retryDelay = js_or (map_option int (opt_retryDelay opts)) 1000,
       queue = [], processing = False, activeRequests = 0, requestTimes = [],
       qstats = \<lparr> totalRequests_q = 0, successfulRequests = 0, failedRequests = 0,
                  rateLimitErrors = 0, totalResponseTime = 0 \<rparr>,
       clock = t0, next_rid = 0, in_flight = [], retry_timers = [], poll_timers = [],
       waiting = None, settled = [], started = [] \<rparr>"

subsection \<open>Methods\<close>

text \<open>\<open>canMakeRequest()\<close>.\<close>

definition canMakeRequest :: "'v request_queue \<Rightarrow> bool" where
  "canMakeRequest s =
     (let oneSecondAgo = clock s - 1000;
          recentRequests = length (filter (\<lambda>time. time > oneSecondAgo) (requestTimes s))
      in int recentRequests < maxRequestsPerSecond s)"

text \<open>
  \<open>waitForRateLimit()\<close>: the time at which the caller's \<open>await\<close> is over. Without a
  timer, that is at once.
\<close>

definition waitForRateLimit :: "'v request_queue \<Rightarrow> int" where
  "waitForRateLimit s =
     (let now = clock s; oneSecondAgo = now - 1000 in
      case find (\<lambda>time. time > oneSecondAgo) (requestTimes s) of
        None \<Rightarrow> now
      | Some oldestRecentRequest \<Rightarrow>
          if oldestRecentRequest \<noteq> 0 then
            (let waitTime = oldestRecentRequest + 1000 - now + 50
             in if waitTime > 0 then now + waitTime else now)
          else now)"

text \<open>
  \<open>executeRequest(request)\<close> up to its \<open>await request.fn()\<close>: the operation is
  started.
\<close>

definition executeRequest :: "request \<Rightarrow> 'v request_queue \<Rightarrow> 'v request_queue" where
  "executeRequest r s =
     s\<lparr>activeRequests := activeRequests s + 1,
       requestTimes := requestTimes s @ [clock s],
       in_flight := in_flight s @ [(r, clock s)],
       started := started s @ [(rid r, clock s)]\<rparr>"

text \<open>
  The loop of \<open>processQueue()\<close>, entered and re-entered at its \<open>while\<close> test. It
  ends either suspended at \<open>await this.waitForRateLimit()\<close> or past the loop, where
  \<open>processing\<close> is reset and a timer is set when requests remain.
\<close>

function process_loop :: "'v request_queue \<Rightarrow> 'v request_queue" where
  "process_loop s =
     (if length (queue s) > 0 \<and> activeRequests s < maxConcurrent s then
        (if \<not> canMakeRequest s then s\<lparr>waiting := Some (waitForRateLimit s)\<rparr>
         else process_loop (executeRequest (hd (queue s)) (s\<lparr>queue := tl (queue s)\<rparr>)))
      else
        (let s1 = s\<lparr>processing := False\<rparr>
         in if length (queue s1) > 0
            then s1\<lparr>poll_timers := poll_timers s1 @ [clock s1 + 100]\<rparr>
            else s1))"
  by pat_completeness auto
termination
  by (relation "measure (\<lambda>s. length (queue s))") (auto simp: executeRequest_def)

text \<open>\<open>processQueue()\<close>.\<close>

definition processQueue :: "'v request_queue \<Rightarrow> 'v request_queue" where
  "processQueue s =
     (if processing s \<or> length (queue s) = 0 then s
      else process_loop (s\<lparr>processing := True\<rparr>))"

text \<open>
  The insertion loop of \<open>enqueue\<close>: before the first queued request of strictly
  lower priority, at the end when there is none.
\<close>

fun insert_by_priority :: "request \<Rightarrow> request list \<Rightarrow> request list" where
  "insert_by_priority r [] = [r]"
| "insert_by_priority r (x # xs) =
     (if rq_priority x < rq_priority r then r # x # xs else x # insert_by_priority r xs)"

text \<open>\<open>enqueue(requestFunction, priority)\<close>: the body of the promise executor.\<close>

definition RequestQueue_enqueue :: "int \<Rightarrow> 'v request_queue \<Rightarrow> 'v request_queue" where
  "RequestQueue_enqueue p s =
     (let r = \<lparr> rid = next_rid s, rq_priority = p, attempts = 0, startTime = clock s \<rparr>;
          s1 = s\<lparr>queue := insert_by_priority r (queue s),
                 next_rid := next_rid s + 1,
                 qstats := (qstats s)\<lparr>totalRequests_q := totalRequests_q (qstats s) + 1\<rparr>\<rparr>
      in if \<not> processing s1 then processQueue s1 else s1)"

text \<open>\<open>calculateRetryDelay(attempts, isRateLimit)\<close>, called with \<open>attempts \<ge> 1\<close>.\<close>

definition calculateRetryDelay :: "'v request_queue \<Rightarrow> nat \<Rightarrow> bool \<Rightarrow> int" where
  "calculateRetryDelay s n isRateLimit =
     (let baseDelay = retryDelay s;
          exponentialDelay = baseDelay * 2 ^ (n - 1);
          rateLimitMultiplier = (if isRateLimit then 3 else 1)
      in min (exponentialDelay * rateLimitMultiplier) 30000)"

text \<open>
  \<open>handleRequestError(request, error)\<close>: the request is either given a retry timer
  or rejected.
\<close>

definition handleRequestError :: "request \<Rightarrow> js_error \<Rightarrow> 'v request_queue \<Rightarrow> 'v request_queue" where
  "handleRequestError r0 error s =
     (let r = r0\<lparr>attempts := attempts r0 + 1\<rparr>;
          isRateLimit = isRateLimitError error;
          s1 = (if isRateLimit
                then s\<lparr>qstats := (qstats s)\<lparr>rateLimitErrors := rateLimitErrors (qstats s) + 1\<rparr>\<rparr>
                else s);
          shouldRetry = (int (attempts r) < retryAttempts s1
                         \<and> (isRateLimit \<or> isRetriableError error))
      in if shouldRetry then
           (let delay = calculateRetryDelay s1 (attempts r) isRateLimit
            in s1\<lparr>retry_timers := retry_timers s1 @ [(clock s1 + delay, r)]\<rparr>)
         else
           s1\<lparr>qstats := (qstats s1)\<lparr>failedRequests := failedRequests (qstats s1) + 1\<rparr>,
              settled := settled s1 @ [(rid r, RejectedWith error)]\<rparr>)"

text \<open>
  The rest of \<open>executeRequest\<close>, run when the promise of \<open>request.fn()\<close> settles;
  \<open>t0\<close> is the local \<open>startTime\<close>. The \<open>finally\<close> block is run in the same step.
\<close>

definition executeRequest_resumes ::
  "request \<Rightarrow> int \<Rightarrow> 'v attempt_result \<Rightarrow> 'v request_queue \<Rightarrow> 'v request_queue" where
  "executeRequest_resumes r t0 out s =
     (let s1 = (case out of
                  Succeeds result \<Rightarrow>
                    s\<lparr>qstats := (qstats s)\<lparr>successfulRequests := successfulRequests (qstats s) + 1,
                                           totalResponseTime := totalResponseTime (qstats s) + (clock s - t0)\<rparr>,
                      settled := settled s @ [(rid r, Fulfilled result)]\<rparr>
                | Fails error \<Rightarrow> handleRequestError r error s)
      in s1\<lparr>activeRequests := activeRequests s1 - 1\<rparr>)"

text \<open>The callback of the retry timer.\<close>

definition retry_callback :: "request \<Rightarrow> 'v request_queue \<Rightarrow> 'v request_queue" where
  "retry_callback r s =
     (let s1 = s\<lparr>queue := r # queue s\<rparr>
      in if \<not> processing s1 then processQueue s1 else s1)"

text \<open>\<open>cleanupOldTimes()\<close>.\<close>

definition cleanupOldTimes :: "'v request_queue \<Rightarrow> 'v request_queue" where
  "cleanupOldTimes s =
     (let fiveSecondsAgo = clock s - 5000
      in s\<lparr>requestTimes := filter (\<lambda>time. time > fiveSecondsAgo) (requestTimes s)\<rparr>)"

subsection \<open>The event loop\<close>

text \<open>
  Each event is one uninterrupted run of JavaScript, or the clock moving on:
  \<^item> \<open>Tick d\<close>: \<open>d\<close> milliseconds pass;
  \<^item> \<open>Enqueue p\<close>: a caller submits an operation with priority \<open>p\<close>;
  \<^item> \<open>FnSettles i out\<close>: the running operation of request \<open>i\<close> ends with \<open>out\<close>;
  \<^item> \<open>RetryTimerFires i\<close>: the retry timer of request \<open>i\<close>, due, runs its callback;
  \<^item> \<open>PollTimerFires\<close>: a timer set by \<open>processQueue\<close>, due, calls \<open>processQueue\<close>;
  \<^item> \<open>LoopResumes\<close>: the wait of the suspended \<open>processQueue\<close> loop is over;
  \<^item> \<open>CleanupTimerFires\<close>: the interval timer calls \<open>cleanupOldTimes\<close>.
  An event that cannot happen in the state gives \<open>None\<close>. The clock moves between
  events only, and never backwards: within one run every \<open>Date.now()\<close> reads the same
  time. \<open>clearQueue\<close>, \<open>destroy\<close> and \<open>updateConfig\<close> are not among the events.
\<close>

datatype 'v rq_event =
  Tick nat
| Enqueue int
| FnSettles nat "'v attempt_result"
| RetryTimerFires nat
| PollTimerFires
| LoopResumes
| CleanupTimerFires

fun rq_step :: "'v rq_event \<Rightarrow> 'v request_queue \<Rightarrow> 'v request_queue option" where
  "rq_step (Tick d) s = Some (s\<lparr>clock := clock s + int d\<rparr>)"
| "rq_step (Enqueue p) s = Some (RequestQueue_enqueue p s)"
| "rq_step (FnSettles i out) s =
     (case find (\<lambda>(r, t0). rid r = i) (in_flight s) of
        None \<Rightarrow> None
      | Some (r, t0) \<Rightarrow>
          Some (executeRequest_resumes r t0 out (s\<lparr>in_flight := remove1 (r, t0) (in_flight s)\<rparr>)))"
| "rq_step (RetryTimerFires i) s =
     (case find (\<lambda>(due, r). rid r = i \<and> due \<le> clock s) (retry_timers s) of
        None \<Rightarrow> None
      | Some (due, r) \<Rightarrow>
          Some (retry_callback r (s\<lparr>retry_timers := remove1 (due, r) (retry_timers s)\<rparr>)))"
| "rq_step PollTimerFires s =
     (case find (\<lambda>due. due \<le> clock s) (poll_timers s) of
        None \<Rightarrow> None
      | Some due \<Rightarrow> Some (processQueue (s\<lparr>poll_timers := remove1 due (poll_timers s)\<rparr>)))"
| "rq_step LoopResumes s =
     (case waiting s of
        None \<Rightarrow> None
      | Some wake \<Rightarrow>
          if wake \<le> clock s then Some (process_loop (s\<lparr>waiting := None\<rparr>)) else None)"
| "rq_step CleanupTimerFires s = Some (cleanupOldTimes s)"

fun rq_run :: "'v rq_event list \<Rightarrow> 'v request_queue \<Rightarrow> 'v request_queue option" where
  "rq_run [] s = Some s"
| "rq_run (ev # evs) s = (case rq_step ev s of None \<Rightarrow> None | Some s1 \<Rightarrow> rq_run evs s1)"

text \<open>The results that the operation of request \<open>i\<close> ended with, in order.\<close>

fun outcomes_of :: "nat \<Rightarrow> 'v rq_event list \<Rightarrow> 'v attempt_result list" where
  "outcomes_of i [] = []"
| "outcomes_of i (FnSettles j out # evs) =
     (if j = i then out # outcomes_of i evs else outcomes_of i evs)"
| "outcomes_of i (ev # evs) = outcomes_of i evs"

text \<open>How the promise of request \<open>i\<close> was settled: every \<open>resolve\<close>/\<open>reject\<close> call on it.\<close>

definition settled_as :: "'v request_queue \<Rightarrow> nat \<Rightarrow> 'v promise_result list" where
  "settled_as s i = map snd (filter (\<lambda>(j, res). j = i) (settled s))"

text \<open>The requests that are pending somewhere: queued, running, or waiting for a retry timer.\<close>

definition pending :: "'v request_queue \<Rightarrow> request multiset" where
  "pending s = mset (queue s) + mset (map fst (in_flight s)) + mset (map snd (retry_timers s))"

text \<open>The number of starts recorded in the window \<open>(t - 1000, t]\<close>.\<close>

definition starts_in_window :: "'v request_queue \<Rightarrow> int \<Rightarrow> nat" where
  "starts_in_window s t = length (filter (\<lambda>(i, x). t - 1000 < x \<and> x \<le> t) (started s))"

text \<open>
  The order the queue is meant to have: higher priority first and, within one
  priority, the request enqueued earlier (of smaller \<open>rid\<close>) first.
\<close>

definition served_before :: "request \<Rightarrow> request \<Rightarrow> bool" where
  "served_before a b =
     (rq_priority a > rq_priority b \<or> (rq_priority a = rq_priority b \<and> rid a < rid b))"

subsection \<open>Invariants\<close>

text \<open>The \<open>while\<close> test of \<open>processQueue\<close> fails: the loop is left.\<close>

definition loop_exits :: "'v request_queue \<Rightarrow> bool" where
  "loop_exits s = (queue s = [] \<or> \<not> activeRequests s < maxConcurrent s)"

text \<open>
  The concurrency invariant: \<open>activeRequests\<close> counts the running operations and
  is within \<open>maxConcurrent\<close>.
\<close>

definition conc_ok :: "'v request_queue \<Rightarrow> bool" where
  "conc_ok s = (activeRequests s = int (length (in_flight s)) \<and> activeRequests s \<le> maxConcurrent s)"

text \<open>
  The rate invariant: no window of one second holds more than \<open>maxRequestsPerSecond\<close>
  starts, no start lies in the future, and \<open>requestTimes\<close> holds the recorded
  starts later than some time that is at least five seconds ago.
\<close>

definition rate_ok :: "'v request_queue \<Rightarrow> bool" where
  "rate_ok s =
     ((\<forall>t. int (starts_in_window s t) \<le> maxRequestsPerSecond s)
      \<and> (\<forall>p \<in> set (started s). snd p \<le> clock s)
      \<and> (\<exists>cut \<le> clock s - 5000.
            requestTimes s = filter (\<lambda>x. cut < x) (map snd (started s))))"

text \<open>The settlement that an attempt's result leads to when it is the last attempt.\<close>

definition result_of :: "'v attempt_result \<Rightarrow> 'v promise_result" where
  "result_of out = (case out of Succeeds v \<Rightarrow> Fulfilled v | Fails e \<Rightarrow> RejectedWith e)"

text \<open>An attempt that ended with an error the queue retries.\<close>

definition retried_failure :: "'v attempt_result \<Rightarrow> bool" where
  "retried_failure out = (case out of Succeeds v \<Rightarrow> False | Fails e \<Rightarrow> retried_error e)"

text \<open>The pending requests that are request \<open>i\<close>.\<close>

definition pending_as :: "'v request_queue \<Rightarrow> nat \<Rightarrow> request multiset" where
  "pending_as s i = filter_mset (\<lambda>r. rid r = i) (pending s)"

text \<open>
  The life of request \<open>i\<close>, given the results \<open>os\<close> its attempts have had so far.
  Before it is submitted nothing is known of it. After that it is either pending in
  exactly one place, unsettled, with \<open>attempts\<close> counting its results, all of them
  retried failures and fewer than \<open>retryAttempts\<close>; or it is pending nowhere and
  settled exactly once, by its last result, which was a success, a terminal failure,
  or the failure that used up the attempts.
\<close>

definition life_ok :: "'v request_queue \<Rightarrow> 'v attempt_result list \<Rightarrow> nat \<Rightarrow> bool" where
  "life_ok s os i =
     (if i \<ge> next_rid s then os = [] \<and> pending_as s i = {#} \<and> settled_as s i = []
      else (\<exists>r. pending_as s i = {#r#} \<and> attempts r = length os \<and> list_all retried_failure os
                \<and> int (length os) < retryAttempts s \<and> settled_as s i = [])
         \<or> (pending_as s i = {#} \<and> os \<noteq> [] \<and> settled_as s i = [result_of (last os)]
              \<and> \<not> (list_all retried_failure os \<and> int (length os) < retryAttempts s)))"

text \<open>
  A request has \<open>attempts > 0\<close> exactly when it has failed and been handed to a retry
  timer. A queue is ordered behind its re-queued requests when the part after the
  last request with \<open>attempts > 0\<close> (the whole queue when there is none) holds
  requests with \<open>attempts = 0\<close> only, in the order of \<open>served_before\<close>.
\<close>

definition tail_ordered :: "request list \<Rightarrow> bool" where
  "tail_ordered q =
     (\<exists>P S. q = P @ S \<and> sorted_wrt served_before S \<and> (\<forall>r \<in> set S. attempts r = 0)
            \<and> (P = [] \<or> 0 < attempts (last P)))"

text \<open>
  The order invariant: the queue is ordered behind its re-queued requests, every
  pending request has been submitted, and every request held by a retry timer has
  \<open>attempts > 0\<close>.
\<close>

definition order_ok :: "'v request_queue \<Rightarrow> bool" where
  "order_ok s =
     (tail_ordered (queue s)
      \<and> (\<forall>r \<in># pending s. rid r < next_rid s)
      \<and> (\<forall>p \<in> set (retry_timers s). 0 < attempts (snd p)))"

subsection \<open>Examples\<close>

text \<open>The queue as pairs of request and priority.\<close>

definition queue_view :: "'v request_queue \<Rightarrow> (nat \<times> int) list" where
  "queue_view s = map (\<lambda>r. (rid r, rq_priority r)) (queue s)"

text \<open>Errors and option sets for examples.\<close>

definition timeout_error :: js_error where
  "timeout_error = ErrorValue (Some ''Request timeout'') ''Error: Request timeout''"

definition rate_error :: js_error where
  "rate_error = ErrorValue (Some ''429 Too Many Requests'') ''Error: 429 Too Many Requests''"

definition terminal_error :: js_error where
  "terminal_error = ErrorValue (Some ''Invalid params'') ''Error: Invalid params''"

definition default_options :: rq_options where
  "default_options = \<lparr> opt_maxRequestsPerSecond = None, opt_maxConcurrent = None,
                        opt_retryAttempts = None, opt_retryDelay = None \<rparr>"

definition two_per_second :: rq_options where
  "two_per_second = \<lparr> opt_maxRequestsPerSecond = Some 2, opt_maxConcurrent = None,
                       opt_retryAttempts = None, opt_retryDelay = None \<rparr>"

definition one_at_a_time :: rq_options where
  "one_at_a_time = \<lparr> opt_maxRequestsPerSecond = None, opt_maxConcurrent = Some 1,
                      opt_retryAttempts = None, opt_retryDelay = Some 50 \<rparr>"

text \<open>
  Five operations submitted at once under a limit of two per second, each succeeding
  as soon as it runs; the loop is resumed when its wait is over.
\<close>

definition five_submitted :: "nat rq_event list" where
  "five_submitted =
     [Enqueue 0, Enqueue 0, Enqueue 0, Enqueue 0, Enqueue 0,
      FnSettles 0 (Succeeds 1), FnSettles 1 (Succeeds 1),
      Tick 1050, LoopResumes, FnSettles 2 (Succeeds 1), FnSettles 3 (Succeeds 1),
      Tick 1050, LoopResumes, FnSettles 4 (Succeeds 1)]"

text \<open>One operation: two retried failures then success; three failures; a terminal failure.\<close>

definition fails_twice_then_succeeds :: "nat rq_event list" where
  "fails_twice_then_succeeds =
     [Enqueue 0, FnSettles 0 (Fails timeout_error), Tick 1000, RetryTimerFires 0,
      FnSettles 0 (Fails rate_error), Tick 6000, RetryTimerFires 0, FnSettles 0 (Succeeds 42)]"

definition fails_three_times :: "nat rq_event list" where
  "fails_three_times =
     [Enqueue 0, FnSettles 0 (Fails timeout_error), Tick 1000, RetryTimerFires 0,
      FnSettles 0 (Fails rate_error), Tick 6000, RetryTimerFires 0, FnSettles 0 (Fails timeout_error)]"

definition fails_terminally :: "nat rq_event list" where
  "fails_terminally = [Enqueue 0, FnSettles 0 (Fails terminal_error)]"

definition fails_once :: "nat rq_event list" where
  "fails_once = [Enqueue 0, FnSettles 0 (Fails timeout_error)]"

text \<open>
  With one operation at a time and a retry delay of 50 ms: request 0 (priority 0)
  fails once; requests 1 and 2 (priority 5) are submitted, 1 runs and 2 waits in the
  queue; 50 ms later the retry timer of request 0 fires.
\<close>

definition retry_is_due :: "nat rq_event list" where
  "retry_is_due = [Enqueue 0, FnSettles 0 (Fails timeout_error), Enqueue 5, Enqueue 5, Tick 50]"

definition retry_requeued :: "nat rq_event list" where
  "retry_requeued = retry_is_due @ [RetryTimerFires 0]"

definition retry_served :: "nat rq_event list" where
  "retry_served = retry_requeued @ [FnSettles 1 (Succeeds 7), Tick 50, PollTimerFires]"

text \<open>
  After the retried request 0 has been started again, three more operations are
  submitted, with priorities 1, 7 and 7.
\<close>

definition retry_then_submitted :: "nat rq_event list" where
  "retry_then_submitted = retry_served @ [Enqueue 1, Enqueue 7, Enqueue 7]"

text \<open>Five submissions of mixed priority while one operation at a time may run.\<close>

definition mixed_priorities :: "nat rq_event list" where
  "mixed_priorities = [Enqueue 0, Enqueue 1, Enqueue 5, Enqueue 5, Enqueue 1]"

definition three_submitted :: "nat rq_event list" where
  "three_submitted = [Enqueue 0, Enqueue 0, Enqueue 0]"

section \<open>Properties of CacheManager\<close>

lemma evict_caches_Some:
  "caches m t = Some c \<Longrightarrow> \<exists>c'. caches (CacheManager_evictOldest t m) t = Some c'"
  by (auto simp: CacheManager_evictOldest_def split: option.splits)

lemma lookup_after_set:
  assumes "caches m t = Some c"
  shows "lookup (set_state t0 t k v ttl m) t k =
           Some \<lparr> data = v, createdAt = t0, expiresAt = t0 + js_or ttl (ttls m t), lastAccessed = t0 \<rparr>"
  using assms evict_caches_Some[OF assms]
  by (auto simp: lookup_def set_state_def CacheManager_set_def entries_of_def Let_def update_conv')

lemma get_fresh:
  assumes "lookup m t k = Some e" "now \<le> expiresAt e"
  shows "get_value now t k m = Some (data e)"
    and "lookup (get_state now t k m) t k = Some (e\<lparr>lastAccessed := now\<rparr>)"
  using assms
  by (auto simp: lookup_def get_value_def get_state_def CacheManager_get_def entries_of_def update_conv'
      split: option.splits)

lemma get_stale:
  assumes "lookup m t k = Some e" "now > expiresAt e"
  shows "get_value now t k m = None"
    and "lookup (get_state now t k m) t k = None"
  using assms
  by (auto simp: lookup_def get_value_def get_state_def CacheManager_get_def entries_of_def delete_conv'
      split: option.splits)

text \<open>
  C8. On a declared cache type, \<open>set\<close> stores the value with expiry \<open>now + ttl\<close> (the
  custom TTL, or the type's default when the custom one is \<open>null\<close> or \<open>0\<close>). Whenever an
  entry is stored under a key, \<open>get\<close> returns its value as long as the clock has not
  passed the entry's expiry (and refreshes \<open>lastAccessed\<close>); once the clock is past
  the expiry, \<open>get\<close> returns \<open>null\<close> and the entry is gone after that read.
\<close>

theorem cache_get_respects_expiry:
  assumes "caches m t = Some c"
  shows "(\<exists>e. lookup (set_state t0 t k v ttl m) t k = Some e \<and> data e = v
              \<and> expiresAt e = t0 + js_or ttl (ttls m t))
       \<and> (\<forall>e. lookup m t k = Some e \<longrightarrow>
            (now \<le> expiresAt e \<longrightarrow>
               get_value now t k m = Some (data e)
             \<and> lookup (get_state now t k m) t k = Some (e\<lparr>lastAccessed := now\<rparr>))
          \<and> (now > expiresAt e \<longrightarrow>
               get_value now t k m = None
             \<and> lookup (get_state now t k m) t k = None))"
  using lookup_after_set[OF assms] get_fresh get_stale by fastforce

lemma default_cache_priceData: "caches default_cache ''priceData'' = Some []"
  by (simp add: default_cache_def new_CacheManager_def cache_types_def)

text \<open>
  The scenario of the specification: \<open>set\<close> with a TTL of 100 ms at time 0; a \<open>get\<close> at
  time 100 returns the value, a \<open>get\<close> at time 150 returns \<open>null\<close> and purges the entry.
\<close>

theorem cache_get_respects_expiry_witness:
  "caches default_cache ''priceData'' = Some []
   \<and> get_value 100 ''priceData'' ''k'' (set_state 0 ''priceData'' ''k'' 7 (Some 100) default_cache) = Some 7
   \<and> get_value 150 ''priceData'' ''k'' (set_state 0 ''priceData'' ''k'' 7 (Some 100) default_cache) = None
   \<and> lookup (get_state 150 ''priceData'' ''k''
        (set_state 0 ''priceData'' ''k'' 7 (Some 100) default_cache)) ''priceData'' ''k'' = None"
proof -
  let ?m1 = "set_state 0 ''priceData'' ''k'' 7 (Some 100) default_cache"
  note h = default_cache_priceData
  from cache_get_respects_expiry[OF h, where ?t0.0 = 0 and k = "''k''" and v = 7 and ttl = "Some 100"]
  obtain e where e: "lookup ?m1 ''priceData'' ''k'' = Some e" "data e = 7"
      "expiresAt e = 0 + js_or (Some 100) (ttls default_cache ''priceData'')"
    by blast
  then have ex: "expiresAt e = 100" by (simp add: js_or_def)
  obtain c1 where c1: "caches ?m1 ''priceData'' = Some c1"
    using e(1) by (auto simp: lookup_def entries_of_def split: option.splits)
  from cache_get_respects_expiry[OF c1, where k = "''k''" and now = 100] e ex
  have g1: "get_value 100 ''priceData'' ''k'' ?m1 = Some 7" by simp
  from cache_get_respects_expiry[OF c1, where k = "''k''" and now = 150] e ex
  have g2: "get_value 150 ''priceData'' ''k'' ?m1 = None"
    "lookup (get_state 150 ''priceData'' ''k'' ?m1) ''priceData'' ''k'' = None" by simp_all
  from h g1 g2 show ?thesis by simp
qed

text \<open>The scan of \<open>evictOldest\<close> keeps a lower bound of what it has seen.\<close>

lemma oldest_scan_Some:
  "\<exists>k' t'. oldest_scan c (Some k, Some t) = (Some k', Some t') \<and> t' \<le> t
      \<and> (\<forall>p \<in> set c. t' \<le> lastAccessed (snd p))
      \<and> ((k' = k \<and> t' = t) \<or> (\<exists>e. (k', e) \<in> set c \<and> lastAccessed e = t'))"
proof (induction c arbitrary: k t)
  case Nil
  show ?case by simp
next
  case (Cons p c)
  obtain k0 e0 where p: "p = (k0, e0)" by (cases p)
  show ?case
  proof (cases "lastAccessed e0 < t")
    case True
    from Cons.IH[of k0 "lastAccessed e0"] obtain k' t' where
      h: "oldest_scan c (Some k0, Some (lastAccessed e0)) = (Some k', Some t')"
         "t' \<le> lastAccessed e0" "\<forall>p \<in> set c. t' \<le> lastAccessed (snd p)"
         "(k' = k0 \<and> t' = lastAccessed e0) \<or> (\<exists>e. (k', e) \<in> set c \<and> lastAccessed e = t')"
      by blast
    have "oldest_scan (p # c) (Some k, Some t) = (Some k', Some t')"
      using True p h(1) by simp
    moreover have "t' \<le> t" using True h(2) by simp
    moreover have "\<forall>q \<in> set (p # c). t' \<le> lastAccessed (snd q)"
      using h(2,3) p by simp
    moreover have "\<exists>e. (k', e) \<in> set (p # c) \<and> lastAccessed e = t'"
      using h(4) p by auto
    ultimately show ?thesis by blast
  next
    case False
    from Cons.IH[of k t] obtain k' t' where
      h: "oldest_scan c (Some k, Some t) = (Some k', Some t')"
         "t' \<le> t" "\<forall>p \<in> set c. t' \<le> lastAccessed (snd p)"
         "(k' = k \<and> t' = t) \<or> (\<exists>e. (k', e) \<in> set c \<and> lastAccessed e = t')"
      by blast
    have "oldest_scan (p # c) (Some k, Some t) = (Some k', Some t')"
      using False p h(1) by simp
    moreover have "\<forall>q \<in> set (p # c). t' \<le> lastAccessed (snd q)"
      using h(2,3) p False by simp
    moreover have "(k' = k \<and> t' = t) \<or> (\<exists>e. (k', e) \<in> set (p # c) \<and> lastAccessed e = t')"
      using h(4) by auto
    ultimately show ?thesis using h(2) by blast
  qed
qed

lemma oldest_scan_min:
  assumes "c \<noteq> []"
  shows "\<exists>k e. fst (oldest_scan c (None, None)) = Some k \<and> (k, e) \<in> set c
            \<and> (\<forall>p \<in> set c. lastAccessed e \<le> lastAccessed (snd p))"
proof -
  obtain k0 e0 rest where c: "c = (k0, e0) # rest" using assms by (cases c) auto
  from oldest_scan_Some[of rest k0 "lastAccessed e0"] obtain k' t' where
    h: "oldest_scan rest (Some k0, Some (lastAccessed e0)) = (Some k', Some t')"
       "t' \<le> lastAccessed e0" "\<forall>p \<in> set rest. t' \<le> lastAccessed (snd p)"
       "(k' = k0 \<and> t' = lastAccessed e0) \<or> (\<exists>e. (k', e) \<in> set rest \<and> lastAccessed e = t')"
    by blast
  have s: "fst (oldest_scan c (None, None)) = Some k'" using c h(1) by simp
  from h(4) obtain e where e: "(k', e) \<in> set c" "lastAccessed e = t'"
    using c by auto
  have "\<forall>p \<in> set c. lastAccessed e \<le> lastAccessed (snd p)"
    using c h(2,3) e(2) by simp
  with s e show ?thesis by blast
qed

lemma length_delete_distinct:
  "distinct (map fst c) \<Longrightarrow> (k, e) \<in> set c \<Longrightarrow> length (AList.delete k c) = length c - 1"
proof (induction c)
  case Nil
  then show ?case by simp
next
  case (Cons p c)
  show ?case
  proof (cases "fst p = k")
    case True
    then have "k \<notin> fst ` set c" using Cons.prems(1) by auto
    then have "AList.delete k c = c" by simp
    then show ?thesis using True by simp
  next
    case False
    then have "(k, e) \<in> set c" using Cons.prems(2) by auto
    then have "length (AList.delete k c) = length c - 1" "length c > 0"
      using Cons.IH Cons.prems(1) by auto
    then show ?thesis using False by simp
  qed
qed

lemma length_update_le: "length (AList.update k v c) \<le> Suc (length c)"
  by (induction c) auto

text \<open>
  When every stored key is truthy (a non-empty string), a \<open>set\<close> on a full cache type
  removes an entry whose \<open>lastAccessed\<close> is minimal, then stores the new entry, and the
  size stays within the limit.
\<close>

theorem set_evicts_oldest_truthy:
  assumes c: "caches m t = Some c"
    and dist: "distinct (map fst c)"
    and truthy: "\<forall>k \<in> fst ` set c. truthy_string k"
    and full: "int (length c) = limits m t" "1 \<le> limits m t"
  shows "\<exists>k e. (k, e) \<in> set c \<and> (\<forall>p \<in> set c. lastAccessed e \<le> lastAccessed (snd p))
           \<and> entries_of (set_state now t key d ttl m) t =
               AList.update key \<lparr> data = d, createdAt = now,
                   expiresAt = now + js_or ttl (ttls m t), lastAccessed = now \<rparr> (AList.delete k c)
           \<and> int (size_of (set_state now t key d ttl m) t) \<le> limits m t"
proof -
  have ne: "c \<noteq> []" using full by auto
  from oldest_scan_min[OF ne] obtain k e where
    k: "fst (oldest_scan c (None, None)) = Some k" "(k, e) \<in> set c"
       "\<forall>p \<in> set c. lastAccessed e \<le> lastAccessed (snd p)"
    by blast
  have tk: "truthy_string k" using truthy k(2) by force
  have ev: "caches (CacheManager_evictOldest t m) t = Some (AList.delete k c)"
       "ttls (CacheManager_evictOldest t m) = ttls m"
    using c ne k(1) tk by (simp_all add: CacheManager_evictOldest_def)
  have ent: "entries_of (set_state now t key d ttl m) t =
               AList.update key \<lparr> data = d, createdAt = now,
                   expiresAt = now + js_or ttl (ttls m t), lastAccessed = now \<rparr> (AList.delete k c)"
    using c full ev by (simp add: set_state_def CacheManager_set_def entries_of_def Let_def)
  have "length (AList.delete k c) = length c - 1"
    using length_delete_distinct[OF dist k(2)] .
  moreover have "length c > 0" using ne by simp
  ultimately have "length (AList.update key \<lparr> data = d, createdAt = now,
                   expiresAt = now + js_or ttl (ttls m t), lastAccessed = now \<rparr> (AList.delete k c)) \<le> length c"
    using length_update_le[of key _ "AList.delete k c"] by simp
  then have "int (size_of (set_state now t key d ttl m) t) \<le> limits m t"
    using ent full by (simp add: size_of_def)
  with k ent show ?thesis by blast
qed

lemma set_update_keys: "fst ` set (AList.update k v c) = insert k (fst ` set c)"
  by (induction c) auto

lemma length_update_new: "k \<notin> fst ` set c \<Longrightarrow> length (AList.update k v c) = Suc (length c)"
  by (induction c) auto

lemma length_update_old: "k \<in> fst ` set c \<Longrightarrow> length (AList.update k v c) = length c"
  by (induction c) auto

lemma set_state_other_type:
  "t' \<noteq> t \<Longrightarrow> caches (set_state now t' key d ttl m) t = caches m t
     \<and> limits (set_state now t' key d ttl m) t = limits m t"
  by (auto simp: set_state_def CacheManager_set_def CacheManager_evictOldest_def Let_def
      split: option.splits)

lemma set_state_limits: "limits (set_state now t key d ttl m) = limits m"
  by (auto simp: set_state_def CacheManager_set_def CacheManager_evictOldest_def Let_def
      split: option.splits)

lemma cache_ok_set:
  assumes ok: "cache_ok m t" and key: "truthy_string key"
  shows "cache_ok (set_state now t key d ttl m) t"
proof -
  from ok obtain c where c: "caches m t = Some c" "distinct (map fst c)"
      "\<forall>k \<in> fst ` set c. truthy_string k" "int (length c) \<le> limits m t" "1 \<le> limits m t"
    by (auto simp: cache_ok_def)
  let ?e = "\<lparr> data = d, createdAt = now, expiresAt = now + js_or ttl (ttls m t), lastAccessed = now \<rparr>"
  show ?thesis
  proof (cases "int (length c) = limits m t")
    case True
    from set_evicts_oldest_truthy[OF c(1,2,3) True c(5), of now key d ttl]
    obtain k e where k: "(k, e) \<in> set c"
        "entries_of (set_state now t key d ttl m) t = AList.update key ?e (AList.delete k c)"
        "int (size_of (set_state now t key d ttl m) t) \<le> limits m t"
      by blast
    obtain c' where c': "caches (set_state now t key d ttl m) t = Some c'"
      using c(1) evict_caches_Some[OF c(1)]
      by (auto simp: set_state_def CacheManager_set_def Let_def)
    then have eq: "c' = AList.update key ?e (AList.delete k c)"
      using k(2) by (simp add: entries_of_def)
    have "distinct (map fst c')" unfolding eq
      using c(2) by (simp add: distinct_update distinct_delete)
    moreover have "\<forall>x \<in> fst ` set c'. truthy_string x"
      unfolding eq using c(3) key by (auto simp: set_update_keys AList.delete_eq)
    moreover have "int (length c') \<le> limits m t"
      using k(3) c' by (simp add: size_of_def entries_of_def)
    ultimately show ?thesis using c' c(5) by (auto simp: cache_ok_def set_state_limits)
  next
    case False
    then have lt: "int (length c) < limits m t" using c(4) by simp
    then have c': "caches (set_state now t key d ttl m) t = Some (AList.update key ?e c)"
      using c(1) by (simp add: set_state_def CacheManager_set_def Let_def)
    have "distinct (map fst (AList.update key ?e c))" using c(2) by (simp add: distinct_update)
    moreover have "\<forall>x \<in> fst ` set (AList.update key ?e c). truthy_string x"
      using c(3) key by (auto simp: set_update_keys)
    moreover have "int (length (AList.update key ?e c)) \<le> limits m t"
      using lt length_update_le[of key ?e c] by linarith
    ultimately show ?thesis using c' c(5) by (auto simp: cache_ok_def set_state_limits)
  qed
qed

lemma cache_ok_set_other:
  assumes ok: "cache_ok m t" and ne: "t' \<noteq> t"
  shows "cache_ok (set_state now t' key d ttl m) t"
  using ok set_state_other_type[OF ne, of now key d ttl m] by (simp add: cache_ok_def)

text \<open>
  With truthy keys only, no sequence of \<open>set\<close> calls takes a cache type beyond its
  limit.
\<close>

theorem sets_stay_within_limit_truthy:
  assumes "cache_ok m t" and "\<forall>(now, t', key, d, ttl) \<in> set ops. truthy_string key"
  shows "cache_ok (set_all ops m) t \<and> int (size_of (set_all ops m) t) \<le> limits m t"
  using assms
proof (induction ops arbitrary: m)
  case Nil
  then show ?case by (auto simp: cache_ok_def size_of_def entries_of_def)
next
  case (Cons op ops)
  obtain now t' key d ttl where op: "op = (now, t', key, d, ttl)" by (cases op) auto
  have key: "truthy_string key" using Cons.prems(2) op by auto
  have 1: "cache_ok (set_state now t' key d ttl m) t"
    using Cons.prems(1) key cache_ok_set cache_ok_set_other by (cases "t' = t") auto
  have 2: "\<forall>(now, t', key, d, ttl) \<in> set ops. truthy_string key"
    using Cons.prems(2) by auto
  from Cons.IH[OF 1 2] show ?case using op
    by (simp add: set_state_limits)
qed

text \<open>
  C9. The cache type \<open>priceData\<close> is given the limit 1. The empty string is stored at
  time 0, then the key \<open>x\<close> at time 1. \<open>evictOldest\<close> finds the empty key as the
  oldest, but its test \<open>if (oldestKey)\<close> is false for the empty string, so nothing is
  evicted and the cache type holds two entries, one more than its limit.
\<close>

theorem evict_skips_empty_key:
  "limits small_cache ''priceData'' = 1
   \<and> map fst (entries_of (set_state 1 ''priceData'' ''x'' 20 None
                  (set_state 0 ''priceData'' [] 10 None small_cache)) ''priceData'') = [[], ''x'']
   \<and> size_of (set_state 1 ''priceData'' ''x'' 20 None
                  (set_state 0 ''priceData'' [] 10 None small_cache)) ''priceData'' = 2"
  by code_simp

section \<open>Properties of BatchManager\<close>


lemma get_or_create_keeps_config:
  assumes "batches m kind = Some b"
  shows "batches (get_or_create_batch batchType f opts m) kind = Some b"
  using assms by (auto simp: get_or_create_batch_def split: option.splits)

lemma get_or_create_exists:
  "\<exists>b. batches (get_or_create_batch batchType f opts m) batchType = Some b"
  by (auto simp: get_or_create_batch_def split: option.splits)











text \<open>
  What a flush does with the entries of \<open>promises\<close>. When a batch is flushed (it
  has items and, unless the timer fired, at least \<open>minSize\<close> of them), the stored
  batch function is invoked once with the item keys and every entry of \<open>promises\<close>
  is settled exactly once: resolved with \<open>results[key]\<close> when the returned object has
  a value for its key, rejected with \<open>No result for key\<close> when it has none, and
  rejected with the batch function's own error when the batch function rejects.
\<close>

theorem processBatch_settles_members:
  assumes b: "batches m batchType = Some b"
    and ne: "items b \<noteq> []"
    and big: "why = Timeout \<or> minSize (options b) \<le> int (length (items b))"
  shows "\<exists>m' fr. BatchManager_processBatch env batchType why m = (m', Some fr)
           \<and> invoked_fn fr = batchFunction b
           \<and> invoked_keys fr = map fst (items b)
           \<and> map fst (settlements fr) = map snd (promises b)
           \<and> (\<forall>(key, p) \<in> set (promises b).
                 (\<forall>results r. env (batchFunction b) (map fst (items b)) = Inr results \<and> results key = Some r
                     \<longrightarrow> (p, Resolved r) \<in> set (settlements fr))
               \<and> (\<forall>results. env (batchFunction b) (map fst (items b)) = Inr results \<and> results key = None
                     \<longrightarrow> (p, Rejected (NoResultForKey key)) \<in> set (settlements fr))
               \<and> (\<forall>error. env (batchFunction b) (map fst (items b)) = Inl error
                     \<longrightarrow> (p, Rejected (Thrown error)) \<in> set (settlements fr)))"
proof (cases "env (batchFunction b) (map fst (items b))")
  case (Inl error)
  then show ?thesis using b ne big
    by (auto simp: BatchManager_processBatch_def Let_def split: prod.splits intro!: image_eqI)
next
  case (Inr results)
  then show ?thesis using b ne big
    by (force simp: BatchManager_processBatch_def Let_def split: prod.splits option.splits intro!: image_eqI)
qed

lemma two_members_batch:
  "batches two_members ''prices'' =
     Some \<lparr> items = [(''a'', \<lparr> item_key = ''a'', addedAt = 0 \<rparr>), (''c'', \<lparr> item_key = ''c'', addedAt = 1 \<rparr>)],
            promises = [(''a'', 1), (''c'', 2)], batchFunction = 0, timeout = Some 2000,
            options = \<lparr> maxSize = 10, maxWait = 2000, minSize = 2 \<rparr> \<rparr>"
  by code_simp

text \<open>
  The keys \<open>a\<close> and \<open>c\<close> are pending and the timer fires. With the batch function
  returning \<open>{a: 1, b: 2}\<close>, the promise of \<open>a\<close> resolves with 1 and the promise of
  \<open>c\<close> is rejected for its missing result; with the batch function rejecting, both
  are rejected with its error.
\<close>

theorem processBatch_settles_members_witness:
  "(\<exists>m' fr. BatchManager_processBatch example_env ''prices'' Timeout two_members = (m', Some fr)
       \<and> (1, Resolved 1) \<in> set (settlements fr)
       \<and> (2, Rejected (NoResultForKey ''c'')) \<in> set (settlements fr))
   \<and> (\<exists>m' fr. BatchManager_processBatch failing_env ''prices'' Timeout two_members = (m', Some fr)
       \<and> (1, Rejected (Thrown ''boom'')) \<in> set (settlements fr)
       \<and> (2, Rejected (Thrown ''boom'')) \<in> set (settlements fr))"
proof -
  note b = two_members_batch
  have ne: "items \<lparr> items = [(''a'', \<lparr> item_key = ''a'', addedAt = 0 \<rparr>), (''c'', \<lparr> item_key = ''c'', addedAt = 1 \<rparr>)],
            promises = [(''a'', 1), (''c'', 2)], batchFunction = 0, timeout = Some 2000,
            options = \<lparr> maxSize = 10, maxWait = 2000, minSize = 2 \<rparr> \<rparr> \<noteq> []" by simp
  have ok: "example_env 0 [''a'', ''c''] = Inr [''a'' \<mapsto> 1, ''b'' \<mapsto> 2]"
    by (simp add: example_env_def)
  have bad: "failing_env 0 [''a'', ''c''] = Inl ''boom''"
    by (simp add: failing_env_def)
  from processBatch_settles_members[OF b ne, of Timeout example_env]
  obtain m1 f1 where 1: "BatchManager_processBatch example_env ''prices'' Timeout two_members = (m1, Some f1)"
    "\<forall>(key, p) \<in> {(''a'', 1::nat), (''c'', 2)}.
        (\<forall>results r. example_env 0 [''a'', ''c''] = Inr results \<and> results key = Some r
                     \<longrightarrow> (p, Resolved r) \<in> set (settlements f1))
      \<and> (\<forall>results. example_env 0 [''a'', ''c''] = Inr results \<and> results key = None
                     \<longrightarrow> (p, Rejected (NoResultForKey key)) \<in> set (settlements f1))"
    by auto
  from 1(2) ok have "(1, Resolved 1) \<in> set (settlements f1)"
    "(2, Rejected (NoResultForKey ''c'')) \<in> set (settlements f1)" by auto
  with 1(1) have A: "\<exists>m' fr. BatchManager_processBatch example_env ''prices'' Timeout two_members = (m', Some fr)
       \<and> (1, Resolved 1) \<in> set (settlements fr)
       \<and> (2, Rejected (NoResultForKey ''c'')) \<in> set (settlements fr)" by blast
  from processBatch_settles_members[OF b ne, of Timeout failing_env]
  obtain m2 f2 where 2: "BatchManager_processBatch failing_env ''prices'' Timeout two_members = (m2, Some f2)"
    "\<forall>(key, p) \<in> {(''a'', 1::nat), (''c'', 2)}.
        (\<forall>error. failing_env 0 [''a'', ''c''] = Inl error
                     \<longrightarrow> (p, Rejected (Thrown error)) \<in> set (settlements f2))"
    by auto
  from 2(2) bad have "(1, Rejected (Thrown ''boom'')) \<in> set (settlements f2)"
    "(2, Rejected (Thrown ''boom'')) \<in> set (settlements f2)" by auto
  with 2(1) have B: "\<exists>m' fr. BatchManager_processBatch failing_env ''prices'' Timeout two_members = (m', Some fr)
       \<and> (1, Rejected (Thrown ''boom'')) \<in> set (settlements fr)
       \<and> (2, Rejected (Thrown ''boom'')) \<in> set (settlements fr)" by blast
  from A B show ?thesis by blast
qed

text \<open>
  A call of \<open>addToBatch\<close> stores its promise under its key, replacing whatever was
  stored there. As long as no later call adds the same key to the same batch type,
  the promise stays stored until a flush of that type settles it, and the flush
  settles it with what it owes the key.
\<close>

lemma processBatch_kept_or_settled:
  assumes "holds_promise m T k p" and "BatchManager_processBatch env T' why m = (m', fl)"
  shows "(fl = None \<and> holds_promise m' T k p)
       \<or> (T' \<noteq> T \<and> holds_promise m' T k p)
       \<or> (\<exists>fr. fl = Some fr \<and> T' = T \<and> (p, outcome_for env fr k) \<in> set (settlements fr))"
proof (cases "T' = T")
  case False
  with assms show ?thesis
    by (auto simp: holds_promise_def BatchManager_processBatch_def Let_def
             split: option.splits if_splits sum.splits)
next
  case True
  from assms(1) obtain b where b: "batches m T = Some b" "map_of (promises b) k = Some p"
    unfolding holds_promise_def by blast
  then have mem: "(k, p) \<in> set (promises b)" by (auto dest: map_of_SomeD)
  show ?thesis
  proof (cases fl)
    case None
    with assms(2) b True have "holds_promise m' T k p"
      by (auto simp: holds_promise_def BatchManager_processBatch_def Let_def
               split: if_splits sum.splits)
    with None show ?thesis by simp
  next
    case (Some fr)
    with assms(2) b True mem have "(p, outcome_for env fr k) \<in> set (settlements fr)"
      by (force simp: BatchManager_processBatch_def Let_def outcome_for_def
               split: if_splits sum.splits option.splits)
    with Some True show ?thesis by simp
  qed
qed

lemma addToBatch_kept_or_settled:
  assumes "holds_promise m T k p"
    and "BatchManager_addToBatch env now T' k' f opts q m = (m', fl)"
    and "\<not> (T' = T \<and> k' = k)"
  shows "holds_promise m' T k p
       \<or> (\<exists>fr. fl = Some fr \<and> T' = T \<and> (p, outcome_for env fr k) \<in> set (settlements fr))"
proof -
  define m1 where "m1 = m\<lparr>bstats := (bstats m)\<lparr>totalRequests := totalRequests (bstats m) + 1\<rparr>\<rparr>"
  define m2 where "m2 = get_or_create_batch T' f opts m1"
  define batch2 where "batch2 = add_member now k' q (the (batches m2 T'))"
  define m3 where "m3 = m2\<lparr>batches := (batches m2)(T' \<mapsto> batch2)\<rparr>"
  from assms(1) obtain b where b: "batches m T = Some b" "map_of (promises b) k = Some p"
    unfolding holds_promise_def by blast
  have "batches m1 T = Some b" using b by (simp add: m1_def)
  then have m2: "batches m2 T = Some b" unfolding m2_def by (rule get_or_create_keeps_config)
  have h3: "holds_promise m3 T k p"
  proof (cases "T' = T")
    case False
    then show ?thesis using m2 b(2) by (simp add: holds_promise_def m3_def)
  next
    case True
    with assms(3) have "k' \<noteq> k" by simp
    then have "map_of (promises batch2) k = Some p"
      using True m2 b(2) by (simp add: batch2_def add_member_def Let_def update_conv')
    then show ?thesis using True by (simp add: holds_promise_def m3_def)
  qed
  have r: "BatchManager_addToBatch env now T' k' f opts q m =
        (if int (length (items batch2)) \<ge> maxSize (options batch2)
         then BatchManager_processBatch env T' Full m3 else (m3, None))"
    by (simp add: BatchManager_addToBatch_def Let_def m1_def m2_def batch2_def m3_def)
  show ?thesis
  proof (cases "int (length (items batch2)) \<ge> maxSize (options batch2)")
    case False
    with r assms(2) have "m' = m3" by simp
    with h3 show ?thesis by simp
  next
    case True
    with r assms(2) have "BatchManager_processBatch env T' Full m3 = (m', fl)" by simp
    from processBatch_kept_or_settled[OF h3 this] show ?thesis by blast
  qed
qed

lemma bm_step_kept_or_settled:
  assumes "holds_promise m T k p" and "bm_step env ev m = (m', fl)"
    and "\<forall>now f opts q. ev \<noteq> Add now T k f opts q"
  shows "holds_promise m' T k p
       \<or> (\<exists>fr. fl = Some fr \<and> (p, outcome_for env fr k) \<in> set (settlements fr))"
proof (cases ev)
  case (Add now T' k' f opts q)
  with assms(3) have ne: "\<not> (T' = T \<and> k' = k)" by auto
  from assms(2) Add have "BatchManager_addToBatch env now T' k' f opts q m = (m', fl)"
    by (simp add: bm_step_def)
  from addToBatch_kept_or_settled[OF assms(1) this ne] show ?thesis by blast
next
  case (TimerFires T')
  show ?thesis
  proof (cases "\<exists>b. batches m T' = Some b \<and> timeout b \<noteq> None")
    case True
    with assms(2) TimerFires have "BatchManager_processBatch env T' Timeout m = (m', fl)"
      by (auto simp: bm_step_def)
    from processBatch_kept_or_settled[OF assms(1) this] show ?thesis by blast
  next
    case False
    with assms(2) TimerFires have "m' = m"
      by (auto simp: bm_step_def split: option.splits)
    with assms(1) show ?thesis by simp
  qed
next
  case (ProcessManually T')
  with assms(2) have "BatchManager_processBatch env T' Manual m = (m', fl)"
    by (simp add: bm_step_def)
  from processBatch_kept_or_settled[OF assms(1) this] show ?thesis by blast
qed

lemma bm_run_kept_or_settled:
  "holds_promise m T k p \<Longrightarrow> bm_run env evs m = (m', fls) \<Longrightarrow>
   \<forall>ev \<in> set evs. \<forall>now f opts q. ev \<noteq> Add now T k f opts q \<Longrightarrow>
     holds_promise m' T k p
     \<or> (\<exists>fr \<in> set fls. (p, outcome_for env fr k) \<in> set (settlements fr))"
proof (induction evs arbitrary: m fls)
  case Nil
  then show ?case by simp
next
  case (Cons ev evs)
  obtain m1 fl where st: "bm_step env ev m = (m1, fl)" by (cases "bm_step env ev m")
  obtain m2 fls2 where rn: "bm_run env evs m1 = (m2, fls2)" by (cases "bm_run env evs m1")
  from Cons.prems(2) st rn have e: "m' = m2" "fls = (case fl of None \<Rightarrow> [] | Some x \<Rightarrow> [x]) @ fls2"
    by simp_all
  have ne: "\<forall>now f opts q. ev \<noteq> Add now T k f opts q" using Cons.prems(3) by simp
  from bm_step_kept_or_settled[OF Cons.prems(1) st ne] show ?case
  proof
    assume h: "holds_promise m1 T k p"
    have "\<forall>ev \<in> set evs. \<forall>now f opts q. ev \<noteq> Add now T k f opts q" using Cons.prems(3) by simp
    moreover have "bm_run env evs m1 = (m', fls2)" using rn e(1) by simp
    ultimately show ?thesis using Cons.IH[OF h, of fls2] e(2) by auto
  next
    assume "\<exists>fr. fl = Some fr \<and> (p, outcome_for env fr k) \<in> set (settlements fr)"
    then show ?thesis using e by auto
  qed
qed


lemma addToBatch_holds_or_settles:
  assumes "BatchManager_addToBatch env now T k f opts p m = (m', fl)"
  shows "holds_promise m' T k p
       \<or> (\<exists>fr. fl = Some fr \<and> (p, outcome_for env fr k) \<in> set (settlements fr))"
proof -
  define m1 where "m1 = m\<lparr>bstats := (bstats m)\<lparr>totalRequests := totalRequests (bstats m) + 1\<rparr>\<rparr>"
  define m2 where "m2 = get_or_create_batch T f opts m1"
  define batch2 where "batch2 = add_member now k p (the (batches m2 T))"
  define m3 where "m3 = m2\<lparr>batches := (batches m2)(T \<mapsto> batch2)\<rparr>"
  have "map_of (promises batch2) k = Some p"
    by (simp add: batch2_def add_member_def Let_def update_conv')
  then have h3: "holds_promise m3 T k p" by (simp add: holds_promise_def m3_def)
  have r: "BatchManager_addToBatch env now T k f opts p m =
        (if int (length (items batch2)) \<ge> maxSize (options batch2)
         then BatchManager_processBatch env T Full m3 else (m3, None))"
    by (simp add: BatchManager_addToBatch_def Let_def m1_def m2_def batch2_def m3_def)
  show ?thesis
  proof (cases "int (length (items batch2)) \<ge> maxSize (options batch2)")
    case False
    with r assms have "m' = m3" by simp
    with h3 show ?thesis by simp
  next
    case True
    with r assms have "BatchManager_processBatch env T Full m3 = (m', fl)" by simp
    from processBatch_kept_or_settled[OF h3 this] show ?thesis by blast
  qed
qed

lemma unrepeated_member_kept_or_settled:
  assumes "BatchManager_addToBatch env now T k f opts p m = (m1, fl)"
    and "bm_run env evs m1 = (m2, fls)"
    and "\<forall>ev \<in> set evs. \<forall>now f opts q. ev \<noteq> Add now T k f opts q"
  shows "holds_promise m2 T k p
       \<or> (\<exists>fr \<in> set ((case fl of None \<Rightarrow> [] | Some x \<Rightarrow> [x]) @ fls).
             (p, outcome_for env fr k) \<in> set (settlements fr))"
  using addToBatch_holds_or_settles[OF assms(1)]
proof
  assume "holds_promise m1 T k p"
  from bm_run_kept_or_settled[OF this assms(2,3)] show ?thesis by auto
next
  assume "\<exists>fr. fl = Some fr \<and> (p, outcome_for env fr k) \<in> set (settlements fr)"
  then show ?thesis by auto
qed

text \<open>
  C6. The members of a group are the calls of \<open>addToBatch\<close> that joined it, and a
  flush settles the stored promises only, one for each key. \<open>addToBatch\<close> is called
  twice with one key while the batch is open, returning the promises 1 and 2, and the
  timer fires. With the batch function rejecting, promise 2 is rejected with its error
  and promise 1 is not settled. With the key \<open>c\<close> and the batch function returning
  \<open>{a: 1, b: 2}\<close>, promise 2 is rejected for its missing result and promise 1 is not
  settled. After the flush no promise is stored: promise 1 is never settled.
\<close>

theorem flush_settles_last_add_only:
  "map settlements (snd (bm_run failing_env
       [Add 0 ''prices'' ''a'' 0 no_options 1, Add 1 ''prices'' ''a'' 0 no_options 2,
        TimerFires ''prices''] default_batches))
     = [[(2, Rejected (Thrown ''boom''))]]
   \<and> map settlements (snd (bm_run example_env
       [Add 0 ''prices'' ''c'' 0 no_options 1, Add 1 ''prices'' ''c'' 0 no_options 2,
        TimerFires ''prices''] default_batches))
     = [[(2, Rejected (NoResultForKey ''c''))]]
   \<and> promises (the (batches (fst (bm_run failing_env
       [Add 0 ''prices'' ''a'' 0 no_options 1, Add 1 ''prices'' ''a'' 0 no_options 2,
        TimerFires ''prices''] default_batches)) ''prices'')) = []"
  by code_simp

text \<open>
  C7. \<open>addToBatch\<close> is called twice with the key \<open>a\<close> while the batch is open,
  returning the promises 1 and 2. \<open>batch.promises.set(key, ...)\<close> replaces the entry
  of the first call, so only promise 2 is stored; the flush settles promise 2 alone
  and leaves no promise behind: promise 1 is never settled.
\<close>

theorem repeated_key_drops_first_promise:
  "map snd (promises (the (batches (fst (bm_run example_env
       [Add 0 ''prices'' ''a'' 0 no_options 1, Add 1 ''prices'' ''a'' 0 no_options 2]
       default_batches)) ''prices''))) = [2]
   \<and> map settlements (snd (bm_run example_env
       [Add 0 ''prices'' ''a'' 0 no_options 1, Add 1 ''prices'' ''a'' 0 no_options 2,
        TimerFires ''prices''] default_batches)) = [[(2, Resolved 1)]]
   \<and> promises (the (batches (fst (bm_run example_env
       [Add 0 ''prices'' ''a'' 0 no_options 1, Add 1 ''prices'' ''a'' 0 no_options 2,
        TimerFires ''prices''] default_batches)) ''prices'')) = []"
  by code_simp





section \<open>Properties of RPCManager\<close>

lemma cooldown_index_irrelevant [simp]:
  "RPCManager_isEndpointInCooldown now n (m\<lparr>currentEndpointIndex := i\<rparr>)
     = RPCManager_isEndpointInCooldown now n m"
  by (simp add: RPCManager_isEndpointInCooldown_def)

declare switch_loop.simps [simp del]

lemma switch_loop_changes_index_only:
  "switch_loop now a m = (r, m') \<Longrightarrow> m' = m\<lparr>currentEndpointIndex := currentEndpointIndex m'\<rparr>"
proof (induction now a m rule: switch_loop.induct)
  case (1 now attempts m)
  let ?m1 = "m\<lparr>currentEndpointIndex := (currentEndpointIndex m + 1) mod length (endpoints m)\<rparr>"
  show ?case
  proof (cases "attempts < length (endpoints m)")
    case False
    with "1.prems" show ?thesis by (simp add: switch_loop.simps[of now attempts m])
  next
    case True
    show ?thesis
    proof (cases "RPCManager_isEndpointInCooldown now (name (endpoints m ! currentEndpointIndex ?m1)) m")
      case False
      with True "1.prems" have "m' = ?m1"
        by (simp add: switch_loop.simps[of now attempts m] Let_def)
      then show ?thesis by simp
    next
      case c: True
      with True "1.prems" have "switch_loop now (attempts + 1) ?m1 = (r, m')"
        by (simp add: switch_loop.simps[of now attempts m] Let_def)
      from "1.IH"[OF refl True refl refl _ this] c
      have "m' = ?m1\<lparr>currentEndpointIndex := currentEndpointIndex m'\<rparr>" by simp
      then show ?thesis by (metis rpc_manager.update_convs(1) rpc_manager.surjective rpc_manager.select_convs)
    qed
  qed
qed

lemma cooldown_at_index [simp]:
  "cooldown_at now (m\<lparr>currentEndpointIndex := i\<rparr>) j = cooldown_at now m j"
  by (simp add: cooldown_at_def)

lemma switch_loop_spec:
  "switch_loop now a m = (r, m') \<Longrightarrow> a \<le> length (endpoints m) \<Longrightarrow>
     (r \<longrightarrow> (\<exists>k. 1 \<le> k \<and> k \<le> length (endpoints m) - a
                \<and> currentEndpointIndex m' = (currentEndpointIndex m + k) mod length (endpoints m)
                \<and> \<not> cooldown_at now m (currentEndpointIndex m')
                \<and> (\<forall>j. 1 \<le> j \<and> j < k \<longrightarrow>
                      cooldown_at now m ((currentEndpointIndex m + j) mod length (endpoints m)))))
   \<and> (\<not> r \<longrightarrow> (\<forall>j. 1 \<le> j \<and> j \<le> length (endpoints m) - a \<longrightarrow>
                      cooldown_at now m ((currentEndpointIndex m + j) mod length (endpoints m)))
              \<and> (currentEndpointIndex m < length (endpoints m) \<longrightarrow>
                   currentEndpointIndex m' =
                     (currentEndpointIndex m + (length (endpoints m) - a)) mod length (endpoints m)))"
proof (induction now a m rule: switch_loop.induct)
  case (1 now attempts m)
  let ?n = "length (endpoints m)"
  let ?i = "currentEndpointIndex m"
  let ?m1 = "m\<lparr>currentEndpointIndex := (?i + 1) mod ?n\<rparr>"
  show ?case
  proof (cases "attempts < ?n")
    case False
    with "1.prems" have "r = False" "m' = m" "?n - attempts = 0"
      by (simp_all add: switch_loop.simps[of now attempts m])
    then show ?thesis by simp
  next
    case True
    show ?thesis
    proof (cases "cooldown_at now m ((?i + 1) mod ?n)")
      case False
      with True "1.prems" have res: "r = True" "m' = ?m1"
        by (simp_all add: switch_loop.simps[of now attempts m] Let_def cooldown_at_def)
      have "1 \<le> (1::nat) \<and> 1 \<le> ?n - attempts
          \<and> currentEndpointIndex m' = (?i + 1) mod ?n
          \<and> \<not> cooldown_at now m (currentEndpointIndex m')
          \<and> (\<forall>j. 1 \<le> j \<and> j < (1::nat) \<longrightarrow> cooldown_at now m ((?i + j) mod ?n))"
        using res False True by simp
      then show ?thesis using res(1) by blast
    next
      case c: True
      with True "1.prems" have rec: "switch_loop now (attempts + 1) ?m1 = (r, m')"
        by (simp add: switch_loop.simps[of now attempts m] Let_def cooldown_at_def)
      have c': "RPCManager_isEndpointInCooldown now (name (endpoints ?m1 ! currentEndpointIndex ?m1)) ?m1"
        using c by (simp add: cooldown_at_def)
      have le: "attempts + 1 \<le> length (endpoints ?m1)" using True by simp
      note IH = "1.IH"[OF refl True refl refl c' rec le, simplified]
      have shift: "((?i + 1) mod ?n + j) mod ?n = (?i + (j + 1)) mod ?n" for j
      proof -
        have "((?i + 1) mod ?n + j) mod ?n = (?i + 1 + j) mod ?n" by (rule mod_add_left_eq)
        moreover have "?i + 1 + j = ?i + (j + 1)" by simp
        ultimately show ?thesis by simp
      qed
      show ?thesis
      proof (cases r)
        case True
        with IH obtain k where k: "1 \<le> k" "k \<le> ?n - Suc attempts"
          "currentEndpointIndex m' = ((?i + 1) mod ?n + k) mod ?n"
          "\<not> cooldown_at now m (currentEndpointIndex m')"
          "\<forall>j. 1 \<le> j \<and> j < k \<longrightarrow> cooldown_at now m (((?i + 1) mod ?n + j) mod ?n)"
          by auto
        have "\<forall>j. 1 \<le> j \<and> j < k + 1 \<longrightarrow> cooldown_at now m ((?i + j) mod ?n)"
        proof (intro allI impI)
          fix j assume j: "1 \<le> j \<and> j < k + 1"
          show "cooldown_at now m ((?i + j) mod ?n)"
          proof (cases "j = 1")
            case True
            then show ?thesis using c by simp
          next
            case False
            then have "1 \<le> j - 1 \<and> j - 1 < k" using j by auto
            then have "cooldown_at now m (((?i + 1) mod ?n + (j - 1)) mod ?n)" using k(5) by blast
            moreover have "j - 1 + 1 = j" using j by simp
            ultimately show ?thesis using shift[of "j - 1"] by simp
          qed
        qed
        moreover have "currentEndpointIndex m' = (?i + (k + 1)) mod ?n"
          using k(3) shift[of k] by simp
        moreover have "1 \<le> k + 1" "k + 1 \<le> ?n - attempts" using k(2) \<open>attempts < ?n\<close> by auto
        ultimately show ?thesis using True k(4) by blast
      next
        case False
        have "0 < ?n" using \<open>attempts < ?n\<close> by linarith
        then have lt: "Suc ?i mod ?n < ?n" by simp
        with False IH have f: "\<forall>j. 1 \<le> j \<and> j \<le> ?n - Suc attempts \<longrightarrow>
                cooldown_at now m (((?i + 1) mod ?n + j) mod ?n)"
          "currentEndpointIndex m' = ((?i + 1) mod ?n + (?n - Suc attempts)) mod ?n"
          using \<open>attempts < ?n\<close> by auto
        have "\<forall>j. 1 \<le> j \<and> j \<le> ?n - attempts \<longrightarrow> cooldown_at now m ((?i + j) mod ?n)"
        proof (intro allI impI)
          fix j assume j: "1 \<le> j \<and> j \<le> ?n - attempts"
          show "cooldown_at now m ((?i + j) mod ?n)"
          proof (cases "j = 1")
            case True
            then show ?thesis using c by simp
          next
            case False
            then have "1 \<le> j - 1 \<and> j - 1 \<le> ?n - Suc attempts" using j by auto
            then have "cooldown_at now m (((?i + 1) mod ?n + (j - 1)) mod ?n)" using f(1) by blast
            moreover have "j - 1 + 1 = j" using j by simp
            ultimately show ?thesis using shift[of "j - 1"] by simp
          qed
        qed
        moreover have "currentEndpointIndex m' = (?i + (?n - attempts)) mod ?n"
        proof -
          have "?n - Suc attempts + 1 = ?n - attempts" using \<open>attempts < ?n\<close> by simp
          then show ?thesis using f(2) shift[of "?n - Suc attempts"] by simp
        qed
        ultimately show ?thesis using False by blast
      qed
    qed
  qed
qed

lemma cyclic_covers_all:
  fixes n i :: nat
  assumes "i < n" and all: "\<forall>j. 1 \<le> j \<and> j \<le> n \<longrightarrow> P ((i + j) mod n)" and "x < n"
  shows "P x"
proof (cases "i < x")
  case True
  then have "1 \<le> x - i \<and> x - i \<le> n" using assms(3) by linarith
  then have "P ((i + (x - i)) mod n)" using all by blast
  then show ?thesis using True assms(3) by simp
next
  case False
  then have "1 \<le> n - i + x \<and> n - i + x \<le> n" using assms(1) by linarith
  then have "P ((i + (n - i + x)) mod n)" using all by blast
  moreover have "i + (n - i + x) = n + x" using assms(1) by simp
  ultimately show ?thesis using assms(3) by simp
qed

lemma all_in_cooldown_iff:
  "all_in_cooldown now m = (\<forall>x < length (endpoints m). cooldown_at now m x)"
  by (simp add: all_in_cooldown_def cooldown_at_def list_all_length)

lemma switchToNextEndpoint_spec:
  assumes "RPCManager_switchToNextEndpoint now m = (r, m')"
    and "currentEndpointIndex m < length (endpoints m)"
  shows "(r \<longrightarrow> (\<exists>k. 1 \<le> k \<and> k \<le> length (endpoints m)
                \<and> currentEndpointIndex m' = (currentEndpointIndex m + k) mod length (endpoints m)
                \<and> \<not> cooldown_at now m (currentEndpointIndex m')
                \<and> (\<forall>j. 1 \<le> j \<and> j < k \<longrightarrow>
                      cooldown_at now m ((currentEndpointIndex m + j) mod length (endpoints m)))))
       \<and> (\<not> r \<longrightarrow> all_in_cooldown now m
                \<and> RPCManager_getCurrentEndpoint m' = RPCManager_getCurrentEndpoint m)"
proof -
  from assms(1) have sl: "switch_loop now 0 m = (r, m')"
    by (simp add: RPCManager_switchToNextEndpoint_def)
  note spec = switch_loop_spec[OF sl, simplified]
  note same = switch_loop_changes_index_only[OF sl]
  show ?thesis
  proof (cases r)
    case True
    then show ?thesis using spec by auto
  next
    case False
    with spec assms(2) have
      f: "\<forall>j. 1 \<le> j \<and> j \<le> length (endpoints m) \<longrightarrow>
            cooldown_at now m ((currentEndpointIndex m + j) mod length (endpoints m))"
         "currentEndpointIndex m' = currentEndpointIndex m"
      by auto
    have "\<forall>x < length (endpoints m). cooldown_at now m x"
      using cyclic_covers_all[OF assms(2), of "cooldown_at now m"] f(1) by blast
    then have "all_in_cooldown now m" by (simp add: all_in_cooldown_iff)
    moreover have "m' = m" using same f(2) by simp
    ultimately show ?thesis using False by simp
  qed
qed

lemma loadEndpoints_nonempty: "loadEndpoints helius \<noteq> []"
  by (simp add: loadEndpoints_def)

lemma rotation_ok_init: "rotation_ok helius (new_RPCManager helius)"
  using loadEndpoints_nonempty[of helius] by (simp add: rotation_ok_def new_RPCManager_def)

lemma switch_loop_index_bound:
  "switch_loop now a m = (r, m') \<Longrightarrow> currentEndpointIndex m < length (endpoints m) \<Longrightarrow>
     currentEndpointIndex m' < length (endpoints m)"
proof (induction now a m rule: switch_loop.induct)
  case (1 now attempts m)
  let ?m1 = "m\<lparr>currentEndpointIndex := (currentEndpointIndex m + 1) mod length (endpoints m)\<rparr>"
  show ?case
  proof (cases "attempts < length (endpoints m)")
    case False
    with "1.prems" show ?thesis by (simp add: switch_loop.simps[of now attempts m])
  next
    case True
    have "0 < length (endpoints m)" using "1.prems"(2) by linarith
    then have lt: "currentEndpointIndex ?m1 < length (endpoints ?m1)" by simp
    show ?thesis
    proof (cases "RPCManager_isEndpointInCooldown now (name (endpoints m ! currentEndpointIndex ?m1)) m")
      case False
      with True "1.prems" have "m' = ?m1"
        by (simp add: switch_loop.simps[of now attempts m] Let_def)
      then show ?thesis using lt by simp
    next
      case c: True
      with True "1.prems" have rec: "switch_loop now (attempts + 1) ?m1 = (r, m')"
        by (simp add: switch_loop.simps[of now attempts m] Let_def)
      have c': "RPCManager_isEndpointInCooldown now (name (endpoints ?m1 ! currentEndpointIndex ?m1)) ?m1"
        using c by simp
      from "1.IH"[OF refl True refl refl c' rec lt] show ?thesis by simp
    qed
  qed
qed

lemma rotation_ok_switch:
  assumes "rotation_ok helius m"
  shows "rotation_ok helius (snd (RPCManager_switchToNextEndpoint now m))"
proof -
  obtain r m' where sl: "switch_loop now 0 m = (r, m')" by (cases "switch_loop now 0 m")
  from switch_loop_changes_index_only[OF sl] have "endpoints m' = endpoints m"
    by (metis rpc_manager.select_convs(2) rpc_manager.surjective rpc_manager.update_convs(1))
  moreover from switch_loop_index_bound[OF sl] assms
  have "currentEndpointIndex m' < length (endpoints m)" unfolding rotation_ok_def by blast
  ultimately show ?thesis using assms sl
    unfolding rotation_ok_def RPCManager_switchToNextEndpoint_def by auto
qed

lemma rotation_ok_step:
  assumes "rotation_ok helius m"
  shows "rotation_ok helius (rpc_step ev m)"
proof (cases ev)
  case (Pair now e)
  show ?thesis
  proof (cases e)
    case (EndpointFails n)
    let ?m1 = "m\<lparr>failureCounts := (failureCounts m)(n \<mapsto> (case failureCounts m n of None \<Rightarrow> 0 | Some c \<Rightarrow> c) + 1),
                 lastFailureTime := (lastFailureTime m)(n \<mapsto> now)\<rparr>"
    have ok1: "rotation_ok helius ?m1" using assms unfolding rotation_ok_def by auto
    have "rpc_step ev m = ?m1 \<or> rpc_step ev m = snd (RPCManager_switchToNextEndpoint now ?m1)"
      using Pair EndpointFails by (simp add: RPCManager_handleEndpointFailure_def Let_def)
    then show ?thesis using ok1 rotation_ok_switch[OF ok1, of now] by auto
  next
    case (EndpointSucceeds n)
    then show ?thesis using Pair assms by (auto simp: rotation_ok_def RPCManager_resetFailureCount_def)
  next
    case Rotate
    then show ?thesis using Pair rotation_ok_switch[OF assms] by simp
  qed
qed

lemma rotation_ok_run: "rotation_ok helius m \<Longrightarrow> rotation_ok helius (rpc_run evs m)"
  by (induction evs arbitrary: m) (simp_all add: rotation_ok_step)

lemma rpc_config_step: "maxFailures (rpc_step ev m) = maxFailures m \<and> cooldownPeriod (rpc_step ev m) = cooldownPeriod m"
proof (cases ev)
  case (Pair now e)
  have sw: "maxFailures (snd (RPCManager_switchToNextEndpoint now x)) = maxFailures x
          \<and> cooldownPeriod (snd (RPCManager_switchToNextEndpoint now x)) = cooldownPeriod x" for x
  proof -
    obtain r m' where sl: "switch_loop now 0 x = (r, m')" by (cases "switch_loop now 0 x")
    from switch_loop_changes_index_only[OF sl] have "maxFailures m' = maxFailures x \<and> cooldownPeriod m' = cooldownPeriod x"
      by (metis rpc_manager.select_convs(5,6) rpc_manager.surjective rpc_manager.update_convs(1))
    then show ?thesis using sl by (simp add: RPCManager_switchToNextEndpoint_def)
  qed
  show ?thesis
  proof (cases e)
    case (EndpointFails n)
    then show ?thesis using Pair sw by (simp add: RPCManager_handleEndpointFailure_def Let_def)
  next
    case (EndpointSucceeds n)
    then show ?thesis using Pair by (simp add: RPCManager_resetFailureCount_def)
  next
    case Rotate
    then show ?thesis using Pair sw by simp
  qed
qed

lemma rpc_config_run: "maxFailures (rpc_run evs m) = maxFailures m \<and> cooldownPeriod (rpc_run evs m) = cooldownPeriod m"
  by (induction evs arbitrary: m) (simp_all add: rpc_config_step)

lemma switchToNextEndpoint_fails_index:
  assumes "RPCManager_switchToNextEndpoint now m = (False, m')"
    and "currentEndpointIndex m < length (endpoints m)"
  shows "currentEndpointIndex m' = currentEndpointIndex m"
proof -
  from assms(1) have sl: "switch_loop now 0 m = (False, m')"
    by (simp add: RPCManager_switchToNextEndpoint_def)
  from switch_loop_spec[OF sl, simplified] assms(2) show ?thesis by auto
qed

lemma handleEndpointFailure_spec:
  fixes n :: string and now :: int
  assumes i: "currentEndpointIndex m < length (endpoints m)" and cp: "0 < cooldownPeriod m"
  defines "c \<equiv> (case failureCounts m n of None \<Rightarrow> 0 | Some c \<Rightarrow> c)"
  defines "m' \<equiv> RPCManager_handleEndpointFailure now n m"
  shows "failureCounts m' n = Some (c + 1) \<and> lastFailureTime m' n = Some now \<and> endpoints m' = endpoints m"
    and "c + 1 < maxFailures m \<Longrightarrow> currentEndpointIndex m' = currentEndpointIndex m"
    and "maxFailures m \<le> c + 1 \<Longrightarrow>
           RPCManager_isEndpointInCooldown now n m'
         \<and> ((\<exists>k. 1 \<le> k \<and> k \<le> length (endpoints m)
                \<and> currentEndpointIndex m' = (currentEndpointIndex m + k) mod length (endpoints m)
                \<and> \<not> cooldown_at now m' (currentEndpointIndex m')
                \<and> (\<forall>j. 1 \<le> j \<and> j < k \<longrightarrow>
                      cooldown_at now m' ((currentEndpointIndex m + j) mod length (endpoints m))))
            \<or> (all_in_cooldown now m' \<and> currentEndpointIndex m' = currentEndpointIndex m))"
proof -
  define m1 where "m1 = m\<lparr>failureCounts := (failureCounts m)(n \<mapsto> c + 1),
                 lastFailureTime := (lastFailureTime m)(n \<mapsto> now)\<rparr>"
  obtain r m2 where sl: "RPCManager_switchToNextEndpoint now m1 = (r, m2)"
    by (cases "RPCManager_switchToNextEndpoint now m1")
  then have sl0: "switch_loop now 0 m1 = (r, m2)" by (simp add: RPCManager_switchToNextEndpoint_def)
  note same = switch_loop_changes_index_only[OF sl0]
  have m': "m' = (if maxFailures m \<le> c + 1 then m2 else m1)"
    using sl by (simp add: m'_def RPCManager_handleEndpointFailure_def Let_def m1_def c_def)
  have f2: "failureCounts m2 = failureCounts m1" "lastFailureTime m2 = lastFailureTime m1"
     "endpoints m2 = endpoints m1" "maxFailures m2 = maxFailures m1" "cooldownPeriod m2 = cooldownPeriod m1"
    using same by (metis rpc_manager.select_convs rpc_manager.surjective rpc_manager.update_convs(1))+
  show "failureCounts m' n = Some (c + 1) \<and> lastFailureTime m' n = Some now \<and> endpoints m' = endpoints m"
    using m' f2 by (simp add: m1_def)
  show "c + 1 < maxFailures m \<Longrightarrow> currentEndpointIndex m' = currentEndpointIndex m"
    using m' by (simp add: m1_def)
  assume lim: "maxFailures m \<le> c + 1"
  then have e: "m' = m2" using m' by simp
  have cd: "RPCManager_isEndpointInCooldown now x m2 = RPCManager_isEndpointInCooldown now x m1" for x
    using f2 by (simp add: RPCManager_isEndpointInCooldown_def)
  have cda: "cooldown_at now m2 j = cooldown_at now m1 j" for j
    using cd f2 by (simp add: cooldown_at_def)
  have all: "all_in_cooldown now m2 = all_in_cooldown now m1"
    using cd f2 by (simp add: all_in_cooldown_def)
  have 1: "RPCManager_isEndpointInCooldown now n m1"
    using lim cp by (simp add: RPCManager_isEndpointInCooldown_def m1_def)
  have i1: "currentEndpointIndex m1 < length (endpoints m1)" using i by (simp add: m1_def)
  note spec = switchToNextEndpoint_spec[OF sl i1]
  have idx: "\<not> r \<Longrightarrow> currentEndpointIndex m2 = currentEndpointIndex m1"
    using switchToNextEndpoint_fails_index[OF _ i1, of now m2] sl by simp
  have em: "endpoints m1 = endpoints m" "currentEndpointIndex m1 = currentEndpointIndex m"
    by (simp_all add: m1_def)
  have 2: "(\<exists>k. 1 \<le> k \<and> k \<le> length (endpoints m)
                \<and> currentEndpointIndex m2 = (currentEndpointIndex m + k) mod length (endpoints m)
                \<and> \<not> cooldown_at now m2 (currentEndpointIndex m2)
                \<and> (\<forall>j. 1 \<le> j \<and> j < k \<longrightarrow>
                      cooldown_at now m2 ((currentEndpointIndex m + j) mod length (endpoints m))))
            \<or> (all_in_cooldown now m2 \<and> currentEndpointIndex m2 = currentEndpointIndex m)"
  proof (cases r)
    case True
    with spec show ?thesis unfolding cda em by blast
  next
    case False
    with spec idx show ?thesis unfolding all em by blast
  qed
  show "RPCManager_isEndpointInCooldown now n m'
         \<and> ((\<exists>k. 1 \<le> k \<and> k \<le> length (endpoints m)
                \<and> currentEndpointIndex m' = (currentEndpointIndex m + k) mod length (endpoints m)
                \<and> \<not> cooldown_at now m' (currentEndpointIndex m')
                \<and> (\<forall>j. 1 \<le> j \<and> j < k \<longrightarrow>
                      cooldown_at now m' ((currentEndpointIndex m + j) mod length (endpoints m))))
            \<or> (all_in_cooldown now m' \<and> currentEndpointIndex m' = currentEndpointIndex m))"
    unfolding e using 1 2 cd by blast
qed


lemma reachable_config:
  "maxFailures (rpc_run evs (new_RPCManager helius)) = 5
   \<and> cooldownPeriod (rpc_run evs (new_RPCManager helius)) = 60000"
  using rpc_config_run[of evs "new_RPCManager helius"] by (simp add: new_RPCManager_def)

text \<open>
  C5, as the code has it. \<open>getCurrentEndpoint\<close> returns the endpoint at the current
  position of the list, whatever its cooldown state: the first-listed endpoint at the
  start and, in every reachable state, an endpoint of the list (never \<open>undefined\<close>).
  A reported success leaves the position alone, and so does a reported failure that
  leaves the count of the reported endpoint below \<open>maxFailures\<close>. Every reported
  failure that leaves that count at \<open>maxFailures\<close> or above puts the reported
  endpoint in cooldown and runs a rotation, and so does \<open>retryWithFallback\<close>. A
  rotation moves the position forward, cyclically, to the first endpoint that is not
  in cooldown (after a full turn, the one it started from); when every endpoint is in
  cooldown it leaves the position where it was.
\<close>

theorem current_endpoint_is_rotation_position:
  assumes run: "rpc_run evs (new_RPCManager helius) = m"
  shows "RPCManager_getCurrentEndpoint (new_RPCManager helius) = Some (hd (loadEndpoints helius))
   \<and> endpoints m = loadEndpoints helius \<and> currentEndpointIndex m < length (loadEndpoints helius)
   \<and> RPCManager_getCurrentEndpoint m = Some (loadEndpoints helius ! currentEndpointIndex m)
   \<and> maxFailures m = 5 \<and> cooldownPeriod m = 60000
   \<and> currentEndpointIndex (RPCManager_resetFailureCount n m) = currentEndpointIndex m
   \<and> endpoints (RPCManager_handleEndpointFailure now n m) = loadEndpoints helius
   \<and> ((case failureCounts m n of None \<Rightarrow> 0 | Some c \<Rightarrow> c) + 1 < maxFailures m \<longrightarrow>
        currentEndpointIndex (RPCManager_handleEndpointFailure now n m) = currentEndpointIndex m)
   \<and> (maxFailures m \<le> (case failureCounts m n of None \<Rightarrow> 0 | Some c \<Rightarrow> c) + 1 \<longrightarrow>
        RPCManager_isEndpointInCooldown now n (RPCManager_handleEndpointFailure now n m)
        \<and> ((\<exists>k. 1 \<le> k \<and> k \<le> length (loadEndpoints helius)
               \<and> currentEndpointIndex (RPCManager_handleEndpointFailure now n m)
                    = (currentEndpointIndex m + k) mod length (loadEndpoints helius)
               \<and> \<not> cooldown_at now (RPCManager_handleEndpointFailure now n m)
                      (currentEndpointIndex (RPCManager_handleEndpointFailure now n m))
               \<and> (\<forall>j. 1 \<le> j \<and> j < k \<longrightarrow>
                     cooldown_at now (RPCManager_handleEndpointFailure now n m)
                       ((currentEndpointIndex m + j) mod length (loadEndpoints helius))))
           \<or> (all_in_cooldown now (RPCManager_handleEndpointFailure now n m)
               \<and> currentEndpointIndex (RPCManager_handleEndpointFailure now n m)
                    = currentEndpointIndex m)))
   \<and> (\<forall>r m'. RPCManager_switchToNextEndpoint now m = (r, m') \<longrightarrow>
        (r \<longrightarrow> (\<exists>k. 1 \<le> k \<and> k \<le> length (loadEndpoints helius)
                 \<and> currentEndpointIndex m' = (currentEndpointIndex m + k) mod length (loadEndpoints helius)
                 \<and> \<not> cooldown_at now m (currentEndpointIndex m')
                 \<and> (\<forall>j. 1 \<le> j \<and> j < k \<longrightarrow>
                       cooldown_at now m ((currentEndpointIndex m + j) mod length (loadEndpoints helius)))))
      \<and> (\<not> r \<longrightarrow> all_in_cooldown now m \<and> currentEndpointIndex m' = currentEndpointIndex m))"
proof -
  have ok: "rotation_ok helius m"
    unfolding run[symmetric] using rotation_ok_init by (rule rotation_ok_run)
  then have e: "endpoints m = loadEndpoints helius" and i: "currentEndpointIndex m < length (endpoints m)"
    unfolding rotation_ok_def by blast+
  have cfg: "maxFailures m = 5" "cooldownPeriod m = 60000"
    using reachable_config[of evs helius] run by simp_all
  then have cp: "0 < cooldownPeriod m" by simp
  have 1: "RPCManager_getCurrentEndpoint (new_RPCManager helius) = Some (hd (loadEndpoints helius))"
    using loadEndpoints_nonempty[of helius]
    by (simp add: RPCManager_getCurrentEndpoint_def new_RPCManager_def hd_conv_nth)
  have 2: "RPCManager_getCurrentEndpoint m = Some (loadEndpoints helius ! currentEndpointIndex m)"
    using e i by (simp add: RPCManager_getCurrentEndpoint_def)
  have 3: "currentEndpointIndex (RPCManager_resetFailureCount n m) = currentEndpointIndex m"
    by (simp add: RPCManager_resetFailureCount_def)
  note h = handleEndpointFailure_spec[OF i cp, where n = n and now = now]
  have 4: "endpoints (RPCManager_handleEndpointFailure now n m) = loadEndpoints helius"
    using h(1) e by simp
  have 5: "(case failureCounts m n of None \<Rightarrow> 0 | Some c \<Rightarrow> c) + 1 < maxFailures m \<longrightarrow>
        currentEndpointIndex (RPCManager_handleEndpointFailure now n m) = currentEndpointIndex m"
    using h(2) by blast
  have 6: "maxFailures m \<le> (case failureCounts m n of None \<Rightarrow> 0 | Some c \<Rightarrow> c) + 1 \<longrightarrow>
        RPCManager_isEndpointInCooldown now n (RPCManager_handleEndpointFailure now n m)
        \<and> ((\<exists>k. 1 \<le> k \<and> k \<le> length (loadEndpoints helius)
               \<and> currentEndpointIndex (RPCManager_handleEndpointFailure now n m)
                    = (currentEndpointIndex m + k) mod length (loadEndpoints helius)
               \<and> \<not> cooldown_at now (RPCManager_handleEndpointFailure now n m)
                      (currentEndpointIndex (RPCManager_handleEndpointFailure now n m))
               \<and> (\<forall>j. 1 \<le> j \<and> j < k \<longrightarrow>
                     cooldown_at now (RPCManager_handleEndpointFailure now n m)
                       ((currentEndpointIndex m + j) mod length (loadEndpoints helius))))
           \<or> (all_in_cooldown now (RPCManager_handleEndpointFailure now n m)
               \<and> currentEndpointIndex (RPCManager_handleEndpointFailure now n m)
                    = currentEndpointIndex m))"
    using h(3) unfolding e by blast
  have 7: "\<forall>r m'. RPCManager_switchToNextEndpoint now m = (r, m') \<longrightarrow>
        (r \<longrightarrow> (\<exists>k. 1 \<le> k \<and> k \<le> length (loadEndpoints helius)
                 \<and> currentEndpointIndex m' = (currentEndpointIndex m + k) mod length (loadEndpoints helius)
                 \<and> \<not> cooldown_at now m (currentEndpointIndex m')
                 \<and> (\<forall>j. 1 \<le> j \<and> j < k \<longrightarrow>
                       cooldown_at now m ((currentEndpointIndex m + j) mod length (loadEndpoints helius)))))
      \<and> (\<not> r \<longrightarrow> all_in_cooldown now m \<and> currentEndpointIndex m' = currentEndpointIndex m)"
  proof (intro allI impI)
    fix r m' assume sw: "RPCManager_switchToNextEndpoint now m = (r, m')"
    from switchToNextEndpoint_spec[OF sw i] switchToNextEndpoint_fails_index[OF _ i, of now m'] sw
    show "(r \<longrightarrow> (\<exists>k. 1 \<le> k \<and> k \<le> length (loadEndpoints helius)
                 \<and> currentEndpointIndex m' = (currentEndpointIndex m + k) mod length (loadEndpoints helius)
                 \<and> \<not> cooldown_at now m (currentEndpointIndex m')
                 \<and> (\<forall>j. 1 \<le> j \<and> j < k \<longrightarrow>
                       cooldown_at now m ((currentEndpointIndex m + j) mod length (loadEndpoints helius)))))
      \<and> (\<not> r \<longrightarrow> all_in_cooldown now m \<and> currentEndpointIndex m' = currentEndpointIndex m)"
      unfolding e by (cases r) simp_all
  qed
  have i': "currentEndpointIndex m < length (loadEndpoints helius)" using i e by simp
  show ?thesis by (intro conjI) (rule 1 e i' 2 cfg 3 4 5 6 7)+
qed

text \<open>
  C5 as stated fails. After five failures of the Helius endpoint at time 0 the current
  endpoint is dRPC; at time 60000 no endpoint is in cooldown, yet the current one is
  still dRPC, of priority 2 between Helius (1) and Solana Foundation (3). And when the
  three endpoints have failed in turn, at 0, 10 and 20, all are in cooldown and the
  current endpoint is Solana Foundation, the one that failed last.
\<close>

theorem current_not_highest_priority_available:
  "map_option name (RPCManager_getCurrentEndpoint helius_failed) = Some ''dRPC (Free)''
   \<and> map_option priority (RPCManager_getCurrentEndpoint helius_failed) = Some 2
   \<and> map name (endpoints helius_failed)
        = [''Helius (Primary)'', ''dRPC (Free)'', ''Solana Foundation (Backup)'']
   \<and> map priority (endpoints helius_failed) = [1, 2, 3]
   \<and> \<not> RPCManager_isEndpointInCooldown 60000 ''Helius (Primary)'' helius_failed
   \<and> \<not> RPCManager_isEndpointInCooldown 60000 ''dRPC (Free)'' helius_failed
   \<and> \<not> RPCManager_isEndpointInCooldown 60000 ''Solana Foundation (Backup)'' helius_failed
   \<and> map_option name (RPCManager_getCurrentEndpoint all_failed) = Some ''Solana Foundation (Backup)''
   \<and> all_in_cooldown 20 all_failed
   \<and> lastFailureTime all_failed ''Helius (Primary)'' = Some 0
   \<and> lastFailureTime all_failed ''dRPC (Free)'' = Some 10
   \<and> lastFailureTime all_failed ''Solana Foundation (Backup)'' = Some 20"
  by code_simp

lemma switch_fresh:
  "fst (RPCManager_switchToNextEndpoint 0 (rpc_run [] (new_RPCManager (Some ''key'')))) = True
   \<and> currentEndpointIndex (snd (RPCManager_switchToNextEndpoint 0
         (rpc_run [] (new_RPCManager (Some ''key''))))) = 1"
  by code_simp

lemma switch_all_failed:
  "fst (RPCManager_switchToNextEndpoint 20 all_failed) = False"
  by code_simp

lemma failures_at_limit:
  "currentEndpointIndex helius_failing = 0"
  "failureCounts helius_failing ''Helius (Primary)'' = Some 4"
  "currentEndpointIndex (RPCManager_handleEndpointFailure 0 ''Helius (Primary)'' helius_failing) = 1"
  "currentEndpointIndex helius_failed = 1"
  "failureCounts helius_failed ''Helius (Primary)'' = Some 5"
  "currentEndpointIndex (RPCManager_handleEndpointFailure 5 ''Helius (Primary)'' helius_failed) = 2"
  by code_simp+

text \<open>
  The first failure of the Helius endpoint leaves the position at 0. Its fifth failure
  puts it in cooldown and moves the position to 1, dRPC, which is not in cooldown; a
  sixth, reported while dRPC is current, moves the position on to 2. A rotation on a
  fresh manager moves to position 1; a rotation when all three endpoints are in
  cooldown leaves the position unchanged.
\<close>

theorem current_endpoint_is_rotation_position_witness:
  "currentEndpointIndex (RPCManager_handleEndpointFailure 0 ''Helius (Primary)''
       (new_RPCManager (Some ''key''))) = 0
   \<and> currentEndpointIndex helius_failing = 0
   \<and> currentEndpointIndex (RPCManager_handleEndpointFailure 0 ''Helius (Primary)'' helius_failing) = 1
   \<and> RPCManager_isEndpointInCooldown 0 ''Helius (Primary)''
        (RPCManager_handleEndpointFailure 0 ''Helius (Primary)'' helius_failing)
   \<and> \<not> cooldown_at 0 (RPCManager_handleEndpointFailure 0 ''Helius (Primary)'' helius_failing) 1
   \<and> currentEndpointIndex helius_failed = 1
   \<and> currentEndpointIndex (RPCManager_handleEndpointFailure 5 ''Helius (Primary)'' helius_failed) = 2
   \<and> \<not> cooldown_at 0 (new_RPCManager (Some ''key'')) 1
   \<and> all_in_cooldown 20 all_failed
   \<and> currentEndpointIndex (snd (RPCManager_switchToNextEndpoint 20 all_failed))
       = currentEndpointIndex all_failed"
proof -
  let ?h = "''Helius (Primary)''"
  let ?new = "new_RPCManager (Some ''key'')"
  note ev = failures_at_limit
  have r0: "rpc_run [] ?new = ?new" by simp
  have c0: "(case failureCounts ?new ?h of None \<Rightarrow> 0 | Some c \<Rightarrow> c) + 1 < maxFailures ?new"
    by (simp add: new_RPCManager_def)
  from current_endpoint_is_rotation_position[OF r0, where n = ?h and now = 0] c0
  have "currentEndpointIndex (RPCManager_handleEndpointFailure 0 ?h ?new) = currentEndpointIndex ?new"
    by blast
  then have A: "currentEndpointIndex (RPCManager_handleEndpointFailure 0 ?h ?new) = 0"
    by (simp add: new_RPCManager_def)
  have r4: "rpc_run (replicate 4 (0, EndpointFails ?h)) ?new = helius_failing"
    by (simp add: helius_failing_def)
  note t4 = current_endpoint_is_rotation_position[OF r4, where n = ?h and now = 0]
  have c4: "maxFailures helius_failing \<le> (case failureCounts helius_failing ?h of None \<Rightarrow> 0 | Some c \<Rightarrow> c) + 1"
    using t4 ev(2) by simp
  let ?m5 = "RPCManager_handleEndpointFailure 0 ?h helius_failing"
  from t4 c4 have B1: "RPCManager_isEndpointInCooldown 0 ?h ?m5" by blast
  have len: "length (loadEndpoints (Some ''key'')) = 3" by (simp add: loadEndpoints_def truthy_string_def)
  from t4 c4 have
    "(\<exists>k. 1 \<le> k \<and> k \<le> length (loadEndpoints (Some ''key''))
               \<and> currentEndpointIndex ?m5
                    = (currentEndpointIndex helius_failing + k) mod length (loadEndpoints (Some ''key''))
               \<and> \<not> cooldown_at 0 ?m5 (currentEndpointIndex ?m5)
               \<and> (\<forall>j. 1 \<le> j \<and> j < k \<longrightarrow>
                     cooldown_at 0 ?m5
                       ((currentEndpointIndex helius_failing + j) mod length (loadEndpoints (Some ''key'')))))
           \<or> (all_in_cooldown 0 ?m5
               \<and> currentEndpointIndex ?m5 = currentEndpointIndex helius_failing)"
    by blast
  then have B2: "\<not> cooldown_at 0 ?m5 1"
  proof
    assume "\<exists>k. 1 \<le> k \<and> k \<le> length (loadEndpoints (Some ''key''))
               \<and> currentEndpointIndex ?m5
                    = (currentEndpointIndex helius_failing + k) mod length (loadEndpoints (Some ''key''))
               \<and> \<not> cooldown_at 0 ?m5 (currentEndpointIndex ?m5)
               \<and> (\<forall>j. 1 \<le> j \<and> j < k \<longrightarrow>
                     cooldown_at 0 ?m5
                       ((currentEndpointIndex helius_failing + j) mod length (loadEndpoints (Some ''key''))))"
    then have "\<not> cooldown_at 0 ?m5 (currentEndpointIndex ?m5)" by blast
    then show ?thesis unfolding ev(3) .
  next
    assume "all_in_cooldown 0 ?m5 \<and> currentEndpointIndex ?m5 = currentEndpointIndex helius_failing"
    then have "currentEndpointIndex ?m5 = currentEndpointIndex helius_failing" by blast
    then show ?thesis unfolding ev(3) ev(1) by simp
  qed
  obtain m1 where s1: "RPCManager_switchToNextEndpoint 0 (rpc_run [] ?new) = (True, m1)"
     "currentEndpointIndex m1 = 1"
    using switch_fresh
    by (cases "RPCManager_switchToNextEndpoint 0 (rpc_run [] ?new)") auto
  from current_endpoint_is_rotation_position[OF refl, where evs = "[]" and helius = "Some ''key''" and now = 0] s1(1)
  have "\<not> cooldown_at 0 (rpc_run [] ?new) (currentEndpointIndex m1)"
    by blast
  then have C: "\<not> cooldown_at 0 ?new 1" using s1(2) by simp
  obtain m' where s: "RPCManager_switchToNextEndpoint 20 all_failed = (False, m')"
    using switch_all_failed by (cases "RPCManager_switchToNextEndpoint 20 all_failed") auto
  have ra: "rpc_run (replicate 5 (0, EndpointFails ?h)
         @ replicate 5 (10, EndpointFails ''dRPC (Free)'')
         @ replicate 5 (20, EndpointFails ''Solana Foundation (Backup)'')) ?new = all_failed"
    by (simp add: all_failed_def)
  from current_endpoint_is_rotation_position[OF ra, where now = 20] s
  have D: "all_in_cooldown 20 all_failed \<and> currentEndpointIndex m' = currentEndpointIndex all_failed"
    by blast
  have D': "currentEndpointIndex (snd (RPCManager_switchToNextEndpoint 20 all_failed))
       = currentEndpointIndex all_failed" using D s by simp
  have D1: "all_in_cooldown 20 all_failed" using D by blast
  show ?thesis by (intro conjI) (rule A ev(1) ev(3) B1 B2 ev(4) ev(6) C D1 D')+
qed


section \<open>Properties of RequestQueue\<close>

declare process_loop.simps [simp del]

lemma executeRequest_fields [simp]:
  "maxRequestsPerSecond (executeRequest r s) = maxRequestsPerSecond s"
  "maxConcurrent (executeRequest r s) = maxConcurrent s"
  "retryAttempts (executeRequest r s) = retryAttempts s"
  "retryDelay (executeRequest r s) = retryDelay s"
  "queue (executeRequest r s) = queue s"
  "processing (executeRequest r s) = processing s"
  "activeRequests (executeRequest r s) = activeRequests s + 1"
  "requestTimes (executeRequest r s) = requestTimes s @ [clock s]"
  "qstats (executeRequest r s) = qstats s"
  "clock (executeRequest r s) = clock s"
  "next_rid (executeRequest r s) = next_rid s"
  "in_flight (executeRequest r s) = in_flight s @ [(r, clock s)]"
  "retry_timers (executeRequest r s) = retry_timers s"
  "poll_timers (executeRequest r s) = poll_timers s"
  "waiting (executeRequest r s) = waiting s"
  "settled (executeRequest r s) = settled s"
  "started (executeRequest r s) = started s @ [(rid r, clock s)]"
  by (simp_all add: executeRequest_def)

text \<open>The three ways one pass through the loop test can go.\<close>

lemma process_loop_exit:
  "loop_exits s \<Longrightarrow>
     process_loop s =
       (if queue s = [] then s\<lparr>processing := False\<rparr>
        else s\<lparr>processing := False, poll_timers := poll_timers s @ [clock s + 100]\<rparr>)"
  by (auto simp: loop_exits_def process_loop.simps[of s] Let_def)

lemma process_loop_wait:
  "\<not> loop_exits s \<Longrightarrow> \<not> canMakeRequest s \<Longrightarrow>
     process_loop s = s\<lparr>waiting := Some (waitForRateLimit s)\<rparr>"
  by (auto simp: loop_exits_def process_loop.simps[of s])

lemma process_loop_dispatch:
  "\<not> loop_exits s \<Longrightarrow> canMakeRequest s \<Longrightarrow>
     process_loop s = process_loop (executeRequest (hd (queue s)) (s\<lparr>queue := tl (queue s)\<rparr>))"
  by (auto simp: loop_exits_def process_loop.simps[of s])

lemma process_loop_induct [case_names exit wait dispatch]:
  assumes "\<And>s. loop_exits s \<Longrightarrow> P s"
    and "\<And>s. \<not> loop_exits s \<Longrightarrow> \<not> canMakeRequest s \<Longrightarrow> P s"
    and "\<And>s. \<not> loop_exits s \<Longrightarrow> canMakeRequest s \<Longrightarrow>
            P (executeRequest (hd (queue s)) (s\<lparr>queue := tl (queue s)\<rparr>)) \<Longrightarrow> P s"
  shows "P s"
proof (induction s rule: process_loop.induct)
  case (1 s)
  show ?case
  proof (cases "loop_exits s")
    case True
    then show ?thesis by (rule assms(1))
  next
    case False
    show ?thesis
    proof (cases "canMakeRequest s")
      case c: False
      with False show ?thesis by (rule assms(2))
    next
      case c: True
      have "P (executeRequest (hd (queue s)) (s\<lparr>queue := tl (queue s)\<rparr>))"
        using "1.IH" False c by (simp add: loop_exits_def)
      with False c show ?thesis by (rule assms(3))
    qed
  qed
qed

text \<open>The loop leaves the configuration, the clock, the retry timers and the settled promises alone.\<close>

lemma process_loop_frame:
  "maxRequestsPerSecond (process_loop s) = maxRequestsPerSecond s
   \<and> maxConcurrent (process_loop s) = maxConcurrent s
   \<and> retryAttempts (process_loop s) = retryAttempts s
   \<and> retryDelay (process_loop s) = retryDelay s
   \<and> clock (process_loop s) = clock s
   \<and> next_rid (process_loop s) = next_rid s
   \<and> retry_timers (process_loop s) = retry_timers s
   \<and> settled (process_loop s) = settled s
   \<and> qstats (process_loop s) = qstats s"
proof (induction s rule: process_loop_induct)
  case (exit s)
  then show ?case by (simp add: process_loop_exit)
next
  case (wait s)
  then show ?case by (simp add: process_loop_wait)
next
  case (dispatch s)
  then show ?case by (simp add: process_loop_dispatch)
qed

lemmas process_loop_fields [simp] =
  process_loop_frame[THEN conjunct1]
  process_loop_frame[THEN conjunct2, THEN conjunct1]
  process_loop_frame[THEN conjunct2, THEN conjunct2, THEN conjunct1]
  process_loop_frame[THEN conjunct2, THEN conjunct2, THEN conjunct2, THEN conjunct1]
  process_loop_frame[THEN conjunct2, THEN conjunct2, THEN conjunct2, THEN conjunct2, THEN conjunct1]
  process_loop_frame[THEN conjunct2, THEN conjunct2, THEN conjunct2, THEN conjunct2, THEN conjunct2, THEN conjunct1]
  process_loop_frame[THEN conjunct2, THEN conjunct2, THEN conjunct2, THEN conjunct2, THEN conjunct2, THEN conjunct2, THEN conjunct1]
  process_loop_frame[THEN conjunct2, THEN conjunct2, THEN conjunct2, THEN conjunct2, THEN conjunct2, THEN conjunct2, THEN conjunct2, THEN conjunct1]
  process_loop_frame[THEN conjunct2, THEN conjunct2, THEN conjunct2, THEN conjunct2, THEN conjunct2, THEN conjunct2, THEN conjunct2, THEN conjunct2]

text \<open>The loop serves the queue from its head: it starts the first \<open>k\<close> requests, in order.\<close>

lemma process_loop_serves_head:
  "\<exists>k \<le> length (queue s).
      queue (process_loop s) = drop k (queue s)
    \<and> started (process_loop s) = started s @ map (\<lambda>r. (rid r, clock s)) (take k (queue s))
    \<and> in_flight (process_loop s) = in_flight s @ map (\<lambda>r. (r, clock s)) (take k (queue s))
    \<and> requestTimes (process_loop s) = requestTimes s @ replicate k (clock s)
    \<and> activeRequests (process_loop s) = activeRequests s + int k"
proof (induction s rule: process_loop_induct)
  case (exit s)
  have "queue (process_loop s) = drop 0 (queue s)
    \<and> started (process_loop s) = started s @ map (\<lambda>r. (rid r, clock s)) (take 0 (queue s))
    \<and> in_flight (process_loop s) = in_flight s @ map (\<lambda>r. (r, clock s)) (take 0 (queue s))
    \<and> requestTimes (process_loop s) = requestTimes s @ replicate 0 (clock s)
    \<and> activeRequests (process_loop s) = activeRequests s + int 0"
    using exit by (simp add: process_loop_exit)
  then show ?case by blast
next
  case (wait s)
  have "queue (process_loop s) = drop 0 (queue s)
    \<and> started (process_loop s) = started s @ map (\<lambda>r. (rid r, clock s)) (take 0 (queue s))
    \<and> in_flight (process_loop s) = in_flight s @ map (\<lambda>r. (r, clock s)) (take 0 (queue s))
    \<and> requestTimes (process_loop s) = requestTimes s @ replicate 0 (clock s)
    \<and> activeRequests (process_loop s) = activeRequests s + int 0"
    using wait by (simp add: process_loop_wait)
  then show ?case by blast
next
  case (dispatch s)
  let ?s1 = "executeRequest (hd (queue s)) (s\<lparr>queue := tl (queue s)\<rparr>)"
  from dispatch(1) obtain r rs where q: "queue s = r # rs"
    by (cases "queue s") (auto simp: loop_exits_def)
  from dispatch(3) obtain k where k: "k \<le> length (queue ?s1)"
    "queue (process_loop ?s1) = drop k (queue ?s1)"
    "started (process_loop ?s1) = started ?s1 @ map (\<lambda>r. (rid r, clock ?s1)) (take k (queue ?s1))"
    "in_flight (process_loop ?s1) = in_flight ?s1 @ map (\<lambda>r. (r, clock ?s1)) (take k (queue ?s1))"
    "requestTimes (process_loop ?s1) = requestTimes ?s1 @ replicate k (clock ?s1)"
    "activeRequests (process_loop ?s1) = activeRequests ?s1 + int k"
    by blast
  have e: "process_loop s = process_loop ?s1"
    using dispatch(1,2) by (rule process_loop_dispatch)
  have "Suc k \<le> length (queue s)
    \<and> queue (process_loop s) = drop (Suc k) (queue s)
    \<and> started (process_loop s) = started s @ map (\<lambda>r. (rid r, clock s)) (take (Suc k) (queue s))
    \<and> in_flight (process_loop s) = in_flight s @ map (\<lambda>r. (r, clock s)) (take (Suc k) (queue s))
    \<and> requestTimes (process_loop s) = requestTimes s @ replicate (Suc k) (clock s)
    \<and> activeRequests (process_loop s) = activeRequests s + int (Suc k)"
    using k q unfolding e by (simp add: replicate_append_same)
  then show ?case by blast
qed

lemma pending_process_loop [simp]: "pending (process_loop s) = pending s"
proof -
  from process_loop_serves_head[of s] obtain k where
    k: "queue (process_loop s) = drop k (queue s)"
       "in_flight (process_loop s) = in_flight s @ map (\<lambda>r. (r, clock s)) (take k (queue s))"
    by blast
  have "mset (take k (queue s)) + mset (drop k (queue s)) = mset (queue s)"
    by (metis append_take_drop_id mset_append)
  then show ?thesis
    using k by (simp add: pending_def comp_def ac_simps)
qed

lemma conc_ok_process_loop: "conc_ok s \<Longrightarrow> conc_ok (process_loop s)"
proof (induction s rule: process_loop_induct)
  case (exit s)
  then show ?case by (auto simp: process_loop_exit conc_ok_def)
next
  case (wait s)
  then show ?case by (simp add: process_loop_wait conc_ok_def)
next
  case (dispatch s)
  have "conc_ok (executeRequest (hd (queue s)) (s\<lparr>queue := tl (queue s)\<rparr>))"
    using dispatch(1,4) by (simp add: conc_ok_def loop_exits_def)
  then show ?case using dispatch by (simp add: process_loop_dispatch)
qed

lemma length_filter_mono:
  "(\<And>x. x \<in> set xs \<Longrightarrow> P x \<Longrightarrow> Q x) \<Longrightarrow> length (filter P xs) \<le> length (filter Q xs)"
  by (induction xs) auto

lemma rate_ok_dispatch:
  assumes ok: "rate_ok s" and can: "canMakeRequest s"
  shows "rate_ok (executeRequest r (s\<lparr>queue := q\<rparr>))"
proof -
  let ?c = "clock s"
  let ?S = "started s"
  let ?R = "maxRequestsPerSecond s"
  from ok obtain cut where cut: "cut \<le> ?c - 5000"
      "requestTimes s = filter (\<lambda>x. cut < x) (map snd ?S)"
    by (auto simp: rate_ok_def)
  from ok have win: "\<And>t. int (starts_in_window s t) \<le> ?R" and past: "\<And>p. p \<in> set ?S \<Longrightarrow> snd p \<le> ?c"
    by (auto simp: rate_ok_def)
  have "filter (\<lambda>time. ?c - 1000 < time) (requestTimes s)
          = filter (\<lambda>x. ?c - 1000 < x \<and> cut < x) (map snd ?S)"
    by (simp add: cut(2) conj_commute)
  also have "\<dots> = filter (\<lambda>x. ?c - 1000 < x) (map snd ?S)"
    using cut(1) by (intro filter_cong) auto
  finally have recent: "int (length (filter (\<lambda>x. ?c - 1000 < x) (map snd ?S))) < ?R"
    using can by (simp add: canMakeRequest_def Let_def)
  have a: "int (starts_in_window (executeRequest r (s\<lparr>queue := q\<rparr>)) t) \<le> ?R" for t
  proof (cases "t < ?c")
    case True
    then have "starts_in_window (executeRequest r (s\<lparr>queue := q\<rparr>)) t = starts_in_window s t"
      by (simp add: starts_in_window_def)
    then show ?thesis using win[of t] by simp
  next
    case False
    have "length (filter (\<lambda>(i, x). t - 1000 < x \<and> x \<le> t) ?S)
            \<le> length (filter (\<lambda>p. ?c - 1000 < snd p) ?S)"
      using False by (intro length_filter_mono) auto
    also have "\<dots> = length (filter (\<lambda>x. ?c - 1000 < x) (map snd ?S))"
      by (simp add: filter_map comp_def)
    finally have "int (length (filter (\<lambda>(i, x). t - 1000 < x \<and> x \<le> t) ?S)) < ?R"
      using recent by linarith
    then show ?thesis by (simp add: starts_in_window_def)
  qed
  have b: "\<forall>p \<in> set (started (executeRequest r (s\<lparr>queue := q\<rparr>))). snd p \<le> clock (executeRequest r (s\<lparr>queue := q\<rparr>))"
    using past by auto
  have c: "requestTimes (executeRequest r (s\<lparr>queue := q\<rparr>))
             = filter (\<lambda>x. cut < x) (map snd (started (executeRequest r (s\<lparr>queue := q\<rparr>))))"
    using cut by simp
  have "cut \<le> clock (executeRequest r (s\<lparr>queue := q\<rparr>)) - 5000" using cut(1) by simp
  with a b c show ?thesis unfolding rate_ok_def by fastforce
qed

lemma rate_ok_process_loop: "rate_ok s \<Longrightarrow> rate_ok (process_loop s)"
proof (induction s rule: process_loop_induct)
  case (exit s)
  then show ?case by (auto simp: process_loop_exit rate_ok_def starts_in_window_def)
next
  case (wait s)
  then show ?case by (simp add: process_loop_wait rate_ok_def starts_in_window_def)
next
  case (dispatch s)
  have "rate_ok (executeRequest (hd (queue s)) (s\<lparr>queue := tl (queue s)\<rparr>))"
    using dispatch(4,2) by (rule rate_ok_dispatch)
  then show ?case using dispatch by (simp add: process_loop_dispatch)
qed

lemma conc_ok_cong:
  "activeRequests s' = activeRequests s \<Longrightarrow> in_flight s' = in_flight s \<Longrightarrow>
   maxConcurrent s' = maxConcurrent s \<Longrightarrow> conc_ok s' = conc_ok s"
  by (simp add: conc_ok_def)

lemma rate_ok_cong:
  "started s' = started s \<Longrightarrow> clock s' = clock s \<Longrightarrow> requestTimes s' = requestTimes s \<Longrightarrow>
   maxRequestsPerSecond s' = maxRequestsPerSecond s \<Longrightarrow> rate_ok s' = rate_ok s"
  by (simp add: rate_ok_def starts_in_window_def)

lemma handleRequestError_fields [simp]:
  "maxRequestsPerSecond (handleRequestError r e s) = maxRequestsPerSecond s"
  "maxConcurrent (handleRequestError r e s) = maxConcurrent s"
  "retryAttempts (handleRequestError r e s) = retryAttempts s"
  "retryDelay (handleRequestError r e s) = retryDelay s"
  "queue (handleRequestError r e s) = queue s"
  "processing (handleRequestError r e s) = processing s"
  "activeRequests (handleRequestError r e s) = activeRequests s"
  "requestTimes (handleRequestError r e s) = requestTimes s"
  "clock (handleRequestError r e s) = clock s"
  "next_rid (handleRequestError r e s) = next_rid s"
  "in_flight (handleRequestError r e s) = in_flight s"
  "poll_timers (handleRequestError r e s) = poll_timers s"
  "waiting (handleRequestError r e s) = waiting s"
  "started (handleRequestError r e s) = started s"
  by (simp_all add: handleRequestError_def Let_def)

lemma executeRequest_resumes_fields [simp]:
  "maxRequestsPerSecond (executeRequest_resumes r t0 out s) = maxRequestsPerSecond s"
  "maxConcurrent (executeRequest_resumes r t0 out s) = maxConcurrent s"
  "retryAttempts (executeRequest_resumes r t0 out s) = retryAttempts s"
  "retryDelay (executeRequest_resumes r t0 out s) = retryDelay s"
  "queue (executeRequest_resumes r t0 out s) = queue s"
  "processing (executeRequest_resumes r t0 out s) = processing s"
  "activeRequests (executeRequest_resumes r t0 out s) = activeRequests s - 1"
  "requestTimes (executeRequest_resumes r t0 out s) = requestTimes s"
  "clock (executeRequest_resumes r t0 out s) = clock s"
  "next_rid (executeRequest_resumes r t0 out s) = next_rid s"
  "in_flight (executeRequest_resumes r t0 out s) = in_flight s"
  "poll_timers (executeRequest_resumes r t0 out s) = poll_timers s"
  "waiting (executeRequest_resumes r t0 out s) = waiting s"
  "started (executeRequest_resumes r t0 out s) = started s"
  by (cases out; simp add: executeRequest_resumes_def Let_def)+

lemma conc_ok_processQueue: "conc_ok s \<Longrightarrow> conc_ok (processQueue s)"
proof -
  assume ok: "conc_ok s"
  have "conc_ok (s\<lparr>processing := True\<rparr>)" using ok by (simp add: conc_ok_def)
  then have "conc_ok (process_loop (s\<lparr>processing := True\<rparr>))" by (rule conc_ok_process_loop)
  with ok show ?thesis by (simp add: processQueue_def)
qed

lemma rate_ok_processQueue: "rate_ok s \<Longrightarrow> rate_ok (processQueue s)"
proof -
  assume ok: "rate_ok s"
  have "rate_ok (s\<lparr>processing := True\<rparr>)"
    using ok rate_ok_cong[of "s\<lparr>processing := True\<rparr>" s] by simp
  then have "rate_ok (process_loop (s\<lparr>processing := True\<rparr>))" by (rule rate_ok_process_loop)
  with ok show ?thesis by (simp add: processQueue_def)
qed

lemma find_in_flight:
  "find P xs = Some x \<Longrightarrow> x \<in> set xs \<and> P x"
  by (auto simp: find_Some_iff)

text \<open>What each event does, up to the calls of \<open>processQueue\<close> and the loop.\<close>

lemma rq_step_cases [consumes 1, case_names Tick Enqueue FnSettles RetryTimerFires PollTimerFires LoopResumes CleanupTimerFires]:
  assumes "rq_step ev s = Some s'"
    and "\<And>d. ev = Tick d \<Longrightarrow> s' = s\<lparr>clock := clock s + int d\<rparr> \<Longrightarrow> P"
    and "\<And>p s1. ev = Enqueue p \<Longrightarrow>
           s1 = s\<lparr>queue := insert_by_priority
                     \<lparr> rid = next_rid s, rq_priority = p, attempts = 0, startTime = clock s \<rparr> (queue s),
                   next_rid := next_rid s + 1,
                   qstats := (qstats s)\<lparr>totalRequests_q := totalRequests_q (qstats s) + 1\<rparr>\<rparr> \<Longrightarrow>
           s' = s1 \<or> s' = processQueue s1 \<Longrightarrow> P"
    and "\<And>i out r t0. ev = FnSettles i out \<Longrightarrow> (r, t0) \<in> set (in_flight s) \<Longrightarrow> rid r = i \<Longrightarrow>
           s' = executeRequest_resumes r t0 out (s\<lparr>in_flight := remove1 (r, t0) (in_flight s)\<rparr>) \<Longrightarrow> P"
    and "\<And>i due r s1. ev = RetryTimerFires i \<Longrightarrow> (due, r) \<in> set (retry_timers s) \<Longrightarrow> rid r = i \<Longrightarrow>
           s1 = s\<lparr>retry_timers := remove1 (due, r) (retry_timers s), queue := r # queue s\<rparr> \<Longrightarrow>
           s' = s1 \<or> s' = processQueue s1 \<Longrightarrow> P"
    and "\<And>due. ev = PollTimerFires \<Longrightarrow>
           s' = processQueue (s\<lparr>poll_timers := remove1 due (poll_timers s)\<rparr>) \<Longrightarrow> P"
    and "ev = LoopResumes \<Longrightarrow> s' = process_loop (s\<lparr>waiting := None\<rparr>) \<Longrightarrow> P"
    and "ev = CleanupTimerFires \<Longrightarrow>
           s' = s\<lparr>requestTimes := filter (\<lambda>time. time > clock s - 5000) (requestTimes s)\<rparr> \<Longrightarrow> P"
  shows P
proof (cases ev)
  case (Tick d)
  with assms(1) show ?thesis by (intro assms(2)[of d]) auto
next
  case (Enqueue p)
  with assms(1) show ?thesis
    by (intro assms(3)[OF Enqueue refl]) (auto simp: RequestQueue_enqueue_def Let_def)
next
  case (FnSettles i out)
  with assms(1) obtain r t0 where f: "find (\<lambda>(r, t0). rid r = i) (in_flight s) = Some (r, t0)"
    and s': "s' = executeRequest_resumes r t0 out (s\<lparr>in_flight := remove1 (r, t0) (in_flight s)\<rparr>)"
    by (auto split: option.splits)
  from find_in_flight[OF f] have "(r, t0) \<in> set (in_flight s)" "rid r = i" by auto
  with FnSettles s' show ?thesis by (intro assms(4)[of i out r t0])
next
  case (RetryTimerFires i)
  with assms(1) obtain due r where
    f: "find (\<lambda>(due, r). rid r = i \<and> due \<le> clock s) (retry_timers s) = Some (due, r)"
    and s': "s' = retry_callback r (s\<lparr>retry_timers := remove1 (due, r) (retry_timers s)\<rparr>)"
    by (auto split: option.splits)
  from find_in_flight[OF f] have m: "(due, r) \<in> set (retry_timers s)" "rid r = i" by auto
  have "s' = s\<lparr>retry_timers := remove1 (due, r) (retry_timers s), queue := r # queue s\<rparr>
      \<or> s' = processQueue (s\<lparr>retry_timers := remove1 (due, r) (retry_timers s), queue := r # queue s\<rparr>)"
    using s' by (auto simp: retry_callback_def Let_def)
  with RetryTimerFires m show ?thesis by (intro assms(5)[OF _ _ _ refl])
next
  case PollTimerFires
  with assms(1) obtain due where "s' = processQueue (s\<lparr>poll_timers := remove1 due (poll_timers s)\<rparr>)"
    by (auto split: option.splits)
  with PollTimerFires show ?thesis by (intro assms(6))
next
  case LoopResumes
  with assms(1) have "s' = process_loop (s\<lparr>waiting := None\<rparr>)"
    by (auto split: option.splits if_splits)
  with LoopResumes show ?thesis by (intro assms(7))
next
  case CleanupTimerFires
  with assms(1) show ?thesis by (intro assms(8)) (auto simp: cleanupOldTimes_def Let_def)
qed

lemma conc_ok_step:
  assumes "rq_step ev s = Some s'" "conc_ok s"
  shows "conc_ok s'"
  using assms(1)
proof (cases rule: rq_step_cases)
  case (Tick d)
  with assms(2) show ?thesis by (simp add: conc_ok_def)
next
  case (Enqueue p s1)
  have 1: "conc_ok s1" using assms(2) Enqueue(2) by (simp add: conc_ok_def)
  with Enqueue(3) conc_ok_processQueue[OF 1] show ?thesis by auto
next
  case (FnSettles i out r t0)
  from FnSettles(2) have "length (remove1 (r, t0) (in_flight s)) = length (in_flight s) - 1"
     "length (in_flight s) > 0"
    by (auto simp: length_remove1 length_pos_if_in_set)
  then have "int (length (remove1 (r, t0) (in_flight s))) = int (length (in_flight s)) - 1"
    by linarith
  then show ?thesis using assms(2) FnSettles(4) by (simp add: conc_ok_def)
next
  case (RetryTimerFires i due r s1)
  have 1: "conc_ok s1" using assms(2) RetryTimerFires(4) by (simp add: conc_ok_def)
  with RetryTimerFires(5) conc_ok_processQueue[OF 1] show ?thesis by auto
next
  case (PollTimerFires due)
  have "conc_ok (s\<lparr>poll_timers := remove1 due (poll_timers s)\<rparr>)"
    using assms(2) by (simp add: conc_ok_def)
  then show ?thesis unfolding PollTimerFires(2) by (rule conc_ok_processQueue)
next
  case LoopResumes
  have "conc_ok (s\<lparr>waiting := None\<rparr>)" using assms(2) by (simp add: conc_ok_def)
  then show ?thesis unfolding LoopResumes(2) by (rule conc_ok_process_loop)
next
  case CleanupTimerFires
  with assms(2) show ?thesis by (simp add: conc_ok_def)
qed

lemma rate_ok_step:
  assumes "rq_step ev s = Some s'" "rate_ok s"
  shows "rate_ok s'"
  using assms(1)
proof (cases rule: rq_step_cases)
  case (Tick d)
  from assms(2) obtain cut where cut: "cut \<le> clock s - 5000"
      "requestTimes s = filter (\<lambda>x. cut < x) (map snd (started s))"
    by (auto simp: rate_ok_def)
  note s' = Tick(2)
  have "cut \<le> clock s' - 5000" using cut(1) s' by simp
  moreover have "requestTimes s' = filter (\<lambda>x. cut < x) (map snd (started s'))"
    using cut(2) s' by simp
  moreover have "\<forall>p \<in> set (started s'). snd p \<le> clock s'"
  proof
    fix p assume "p \<in> set (started s')"
    then have "snd p \<le> clock s" using assms(2) s' by (simp add: rate_ok_def)
    then show "snd p \<le> clock s'" using s' by simp
  qed
  moreover have "\<forall>t. int (starts_in_window s' t) \<le> maxRequestsPerSecond s'"
    using assms(2) s' by (simp add: rate_ok_def starts_in_window_def)
  ultimately show ?thesis unfolding rate_ok_def by blast
next
  case (Enqueue p s1)
  have 1: "rate_ok s1" using assms(2) rate_ok_cong[of s1 s] Enqueue(2) by simp
  with Enqueue(3) rate_ok_processQueue[OF 1] show ?thesis by auto
next
  case (FnSettles i out r t0)
  show ?thesis using assms(2) rate_ok_cong[of s' s] FnSettles(4) by simp
next
  case (RetryTimerFires i due r s1)
  have 1: "rate_ok s1" using assms(2) rate_ok_cong[of s1 s] RetryTimerFires(4) by simp
  with RetryTimerFires(5) rate_ok_processQueue[OF 1] show ?thesis by auto
next
  case (PollTimerFires due)
  have "rate_ok (s\<lparr>poll_timers := remove1 due (poll_timers s)\<rparr>)"
    using assms(2) rate_ok_cong[of "s\<lparr>poll_timers := remove1 due (poll_timers s)\<rparr>" s] by simp
  then show ?thesis unfolding PollTimerFires(2) by (rule rate_ok_processQueue)
next
  case LoopResumes
  have "rate_ok (s\<lparr>waiting := None\<rparr>)"
    using assms(2) rate_ok_cong[of "s\<lparr>waiting := None\<rparr>" s] by simp
  then show ?thesis unfolding LoopResumes(2) by (rule rate_ok_process_loop)
next
  case CleanupTimerFires
  from assms(2) obtain cut where cut: "cut \<le> clock s - 5000"
      "requestTimes s = filter (\<lambda>x. cut < x) (map snd (started s))"
    by (auto simp: rate_ok_def)
  note s' = CleanupTimerFires(2)
  have "filter (\<lambda>time. time > clock s - 5000) (requestTimes s)
          = filter (\<lambda>x. clock s - 5000 < x \<and> cut < x) (map snd (started s))"
    by (simp add: cut(2) conj_commute)
  also have "\<dots> = filter (\<lambda>x. clock s - 5000 < x) (map snd (started s))"
    using cut(1) by (intro filter_cong) auto
  finally have "requestTimes s' = filter (\<lambda>x. clock s' - 5000 < x) (map snd (started s'))"
    using s' by simp
  moreover have "\<forall>p \<in> set (started s'). snd p \<le> clock s'"
    using assms(2) s' by (simp add: rate_ok_def)
  moreover have "\<forall>t. int (starts_in_window s' t) \<le> maxRequestsPerSecond s'"
    using assms(2) s' by (simp add: rate_ok_def starts_in_window_def)
  ultimately show ?thesis unfolding rate_ok_def by blast
qed

lemma rq_run_Cons:
  "rq_run (ev # evs) s = Some s' \<Longrightarrow> \<exists>s1. rq_step ev s = Some s1 \<and> rq_run evs s1 = Some s'"
  by (cases "rq_step ev s") simp_all

lemma conc_ok_run: "rq_run evs s = Some s' \<Longrightarrow> conc_ok s \<Longrightarrow> conc_ok s'"
proof (induction evs arbitrary: s)
  case Nil
  then show ?case by simp
next
  case (Cons ev evs)
  from rq_run_Cons[OF Cons.prems(1)] obtain s1 where
    s1: "rq_step ev s = Some s1" "rq_run evs s1 = Some s'" by blast
  from conc_ok_step[OF s1(1) Cons.prems(2)] have "conc_ok s1" .
  with Cons.IH[OF s1(2)] show ?case .
qed

lemma rate_ok_run: "rq_run evs s = Some s' \<Longrightarrow> rate_ok s \<Longrightarrow> rate_ok s'"
proof (induction evs arbitrary: s)
  case Nil
  then show ?case by simp
next
  case (Cons ev evs)
  from rq_run_Cons[OF Cons.prems(1)] obtain s1 where
    s1: "rq_step ev s = Some s1" "rq_run evs s1 = Some s'" by blast
  from rate_ok_step[OF s1(1) Cons.prems(2)] have "rate_ok s1" .
  with Cons.IH[OF s1(2)] show ?case .
qed

lemma pending_processQueue [simp]: "pending (processQueue s) = pending s"
proof -
  have "pending (s\<lparr>processing := True\<rparr>) = pending s" by (simp add: pending_def)
  then show ?thesis by (simp add: processQueue_def)
qed

lemma settled_processQueue [simp]: "settled (processQueue s) = settled s"
  by (simp add: processQueue_def)

lemma next_rid_processQueue [simp]: "next_rid (processQueue s) = next_rid s"
  by (simp add: processQueue_def)

lemma retryAttempts_processQueue [simp]: "retryAttempts (processQueue s) = retryAttempts s"
  by (simp add: processQueue_def)

lemma life_ok_cong:
  "pending s' = pending s \<Longrightarrow> settled s' = settled s \<Longrightarrow> next_rid s' = next_rid s \<Longrightarrow>
   retryAttempts s' = retryAttempts s \<Longrightarrow> life_ok s' os i = life_ok s os i"
  by (simp add: life_ok_def pending_as_def settled_as_def)

lemma mset_remove1_split:
  "x \<in> set xs \<Longrightarrow> mset xs = add_mset x (mset (remove1 x xs))"
  by (induction xs) auto

lemma pending_retry_moved:
  assumes "(due, r) \<in> set (retry_timers s)"
  shows "pending (s\<lparr>retry_timers := remove1 (due, r) (retry_timers s), queue := r # queue s\<rparr>) = pending s"
proof -
  have "mset (map snd (retry_timers s))
          = add_mset r (mset (map snd (remove1 (due, r) (retry_timers s))))"
    using mset_remove1_split[OF assms] by (metis image_mset_add_mset mset_map snd_conv)
  then show ?thesis by (simp add: pending_def)
qed

lemma pending_in_flight_removed:
  assumes "(r, t0) \<in> set (in_flight s)"
  shows "pending s = add_mset r (pending (s\<lparr>in_flight := remove1 (r, t0) (in_flight s)\<rparr>))"
proof -
  have "mset (map fst (in_flight s))
          = add_mset r (mset (map fst (remove1 (r, t0) (in_flight s))))"
    using mset_remove1_split[OF assms] by (metis image_mset_add_mset mset_map fst_conv)
  then show ?thesis by (simp add: pending_def)
qed

lemma handleRequestError_effect:
  "int (attempts r + 1) < retryAttempts s \<and> retried_error e \<Longrightarrow>
     pending (handleRequestError r e s) = pending s + {#r\<lparr>attempts := attempts r + 1\<rparr>#}
     \<and> settled (handleRequestError r e s) = settled s"
  "\<not> (int (attempts r + 1) < retryAttempts s \<and> retried_error e) \<Longrightarrow>
     pending (handleRequestError r e s) = pending s
     \<and> settled (handleRequestError r e s) = settled s @ [(rid r, RejectedWith e)]"
  by (auto simp: handleRequestError_def Let_def pending_def retried_error_def)

lemma executeRequest_resumes_effect:
  "pending (executeRequest_resumes r t0 (Succeeds v) s) = pending s"
  "settled (executeRequest_resumes r t0 (Succeeds v) s) = settled s @ [(rid r, Fulfilled v)]"
  "pending (executeRequest_resumes r t0 (Fails e) s) = pending (handleRequestError r e s)"
  "settled (executeRequest_resumes r t0 (Fails e) s) = settled (handleRequestError r e s)"
  by (simp_all add: executeRequest_resumes_def Let_def pending_def)

lemma mset_insert_by_priority [simp]: "mset (insert_by_priority r q) = add_mset r (mset q)"
  by (induction q) auto

lemma settled_as_snoc:
  "settled s' = settled s @ [(j, x)] \<Longrightarrow>
     settled_as s' i = settled_as s i @ (if j = i then [x] else [])"
  by (simp add: settled_as_def)

lemma settled_as_same: "settled s' = settled s \<Longrightarrow> settled_as s' i = settled_as s i"
  by (simp add: settled_as_def)

lemma pending_as_same: "pending s' = pending s \<Longrightarrow> pending_as s' i = pending_as s i"
  by (simp add: pending_as_def)

lemma pending_as_add:
  "pending s' = add_mset r (pending s) \<Longrightarrow>
     pending_as s' i = (if rid r = i then add_mset r (pending_as s i) else pending_as s i)"
  by (simp add: pending_as_def)

lemma life_ok_enqueue:
  assumes ok: "life_ok s os i" and pos: "1 \<le> retryAttempts s"
    and p: "pending s1 = add_mset r0 (pending s)" and r0: "rid r0 = next_rid s" "attempts r0 = 0"
    and rest: "settled s1 = settled s" "next_rid s1 = next_rid s + 1" "retryAttempts s1 = retryAttempts s"
  shows "life_ok s1 os i"
proof -
  note pa = pending_as_add[OF p, of i]
  note sa = settled_as_same[OF rest(1), of i]
  consider "i = next_rid s" | "i > next_rid s" | "i < next_rid s" by linarith
  then show ?thesis
  proof cases
    case 1
    with ok have "os = []" "pending_as s i = {#}" "settled_as s i = []"
      by (simp_all add: life_ok_def)
    then have "pending_as s1 i = {#r0#} \<and> attempts r0 = length os \<and> list_all retried_failure os
        \<and> int (length os) < retryAttempts s1 \<and> settled_as s1 i = []"
      using pa sa r0 1 pos rest(3) by simp
    then show ?thesis using 1 rest(2) unfolding life_ok_def by auto
  next
    case 2
    with ok have "os = []" "pending_as s i = {#}" "settled_as s i = []"
      by (simp_all add: life_ok_def)
    then show ?thesis using 2 pa sa r0 rest(2) by (simp add: life_ok_def)
  next
    case 3
    then have "pending_as s1 i = pending_as s i" using pa r0 by simp
    then show ?thesis using ok 3 sa rest(2,3) by (simp add: life_ok_def)
  qed
qed

lemma life_ok_other_settles:
  assumes ok: "life_ok s os i" and ne: "rid r \<noteq> i"
    and p: "pending s = add_mset r (pending s0)"
    and p': "pending s' = pending s0 \<or> (\<exists>r'. rid r' = rid r \<and> pending s' = add_mset r' (pending s0))"
    and st: "settled s' = settled s \<or> (\<exists>x. settled s' = settled s @ [(rid r, x)])"
    and rest: "next_rid s' = next_rid s" "retryAttempts s' = retryAttempts s"
  shows "life_ok s' os i"
proof -
  have "pending_as s i = pending_as s0 i" using pending_as_add[OF p, of i] ne by simp
  moreover have "pending_as s' i = pending_as s0 i"
    using p' ne by (auto simp: pending_as_def)
  ultimately have 1: "pending_as s' i = pending_as s i" by simp
  have 2: "settled_as s' i = settled_as s i"
    using st ne by (auto simp: settled_as_def)
  show ?thesis using ok unfolding life_ok_def 1 2 rest by simp
qed

lemma life_ok_settles:
  assumes ok: "life_ok s os i" and rid: "rid r = i"
    and p: "pending s = add_mset r (pending s0)"
    and s': "s' = executeRequest_resumes r t0 out s0"
    and s0: "settled s0 = settled s" "retryAttempts s0 = retryAttempts s" "next_rid s0 = next_rid s"
  shows "life_ok s' (os @ [out]) i"
proof -
  have pa: "pending_as s i = add_mset r (pending_as s0 i)"
    using pending_as_add[OF p, of i] rid by simp
  then have ne: "pending_as s i \<noteq> {#}" by simp
  with ok have lt: "i < next_rid s" by (auto simp: life_ok_def split: if_splits)
  with ok ne obtain r1 where r1: "pending_as s i = {#r1#}" "attempts r1 = length os"
      "list_all retried_failure os" "int (length os) < retryAttempts s" "settled_as s i = []"
    by (auto simp: life_ok_def)
  from r1(1) pa have rr: "r1 = r" "pending_as s0 i = {#}"
    by (auto simp: add_mset_eq_single)
  have frame: "next_rid s' = next_rid s" "retryAttempts s' = retryAttempts s"
    using s' s0 by simp_all
  show ?thesis
  proof (cases out)
    case (Succeeds v)
    have "pending_as s' i = {#}"
      using s' Succeeds rr(2) by (simp add: pending_as_def executeRequest_resumes_effect)
    moreover have "settled_as s' i = [Fulfilled v]"
      using s' Succeeds r1(5) s0(1) rid
      by (simp add: settled_as_def executeRequest_resumes_effect)
    moreover have "\<not> retried_failure (Succeeds v)"
      by (simp add: retried_failure_def)
    ultimately show ?thesis using lt frame Succeeds
      by (simp add: life_ok_def result_of_def)
  next
    case (Fails e)
    show ?thesis
    proof (cases "int (attempts r + 1) < retryAttempts s0 \<and> retried_error e")
      case True
      from handleRequestError_effect(1)[OF True]
      have "pending s' = add_mset (r\<lparr>attempts := attempts r + 1\<rparr>) (pending s0)"
           "settled s' = settled s"
        using s' Fails s0(1) by (simp_all add: executeRequest_resumes_effect)
      then have "pending_as s' i = {#r\<lparr>attempts := attempts r + 1\<rparr>#}" "settled_as s' i = []"
        using rr(2) rid r1(5) by (simp_all add: pending_as_def settled_as_def)
      moreover have "attempts (r\<lparr>attempts := attempts r + 1\<rparr>) = length (os @ [out])"
        using r1(2) rr(1) by simp
      moreover have "list_all retried_failure (os @ [out])"
        using r1(3) True Fails by (simp add: retried_failure_def)
      moreover have "int (length (os @ [out])) < retryAttempts s'"
        using True r1(2) rr(1) s0(2) frame(2) by simp
      ultimately show ?thesis using lt frame(1) unfolding life_ok_def by auto
    next
      case False
      from handleRequestError_effect(2)[OF False]
      have "pending s' = pending s0" "settled s' = settled s @ [(rid r, RejectedWith e)]"
        using s' Fails s0(1) by (simp_all add: executeRequest_resumes_effect)
      then have "pending_as s' i = {#}" "settled_as s' i = [RejectedWith e]"
        using rr(2) rid r1(5) by (simp_all add: pending_as_def settled_as_def)
      moreover have "\<not> (list_all retried_failure (os @ [out]) \<and> int (length (os @ [out])) < retryAttempts s')"
        using False Fails r1(2) rr(1) s0(2) frame(2) by (auto simp: retried_failure_def)
      ultimately show ?thesis using lt frame(1) Fails
        by (simp add: life_ok_def result_of_def)
    qed
  qed
qed

lemma config_processQueue [simp]:
  "maxRequestsPerSecond (processQueue s) = maxRequestsPerSecond s"
  "maxConcurrent (processQueue s) = maxConcurrent s"
  "retryDelay (processQueue s) = retryDelay s"
  "clock (processQueue s) = clock s"
  by (simp_all add: processQueue_def)

lemma config_step:
  assumes "rq_step ev s = Some s'"
  shows "retryAttempts s' = retryAttempts s \<and> maxRequestsPerSecond s' = maxRequestsPerSecond s
       \<and> maxConcurrent s' = maxConcurrent s \<and> retryDelay s' = retryDelay s"
  using assms by (cases rule: rq_step_cases) auto

lemma config_run:
  "rq_run evs s = Some s' \<Longrightarrow>
     retryAttempts s' = retryAttempts s \<and> maxRequestsPerSecond s' = maxRequestsPerSecond s
       \<and> maxConcurrent s' = maxConcurrent s \<and> retryDelay s' = retryDelay s"
proof (induction evs arbitrary: s)
  case Nil
  then show ?case by simp
next
  case (Cons ev evs)
  from rq_run_Cons[OF Cons.prems] obtain s1 where
    s1: "rq_step ev s = Some s1" "rq_run evs s1 = Some s'" by blast
  from config_step[OF s1(1)] Cons.IH[OF s1(2)] show ?case by simp
qed

lemma life_ok_step:
  assumes step: "rq_step ev s = Some s'" and pos: "1 \<le> retryAttempts s" and ok: "life_ok s os i"
  shows "life_ok s' (os @ outcomes_of i [ev]) i"
  using step
proof (cases rule: rq_step_cases)
  case (Tick d)
  then show ?thesis using ok life_ok_cong[of s' s os i] by (simp add: pending_def)
next
  case (Enqueue p s1)
  let ?r0 = "\<lparr> rid = next_rid s, rq_priority = p, attempts = 0, startTime = clock s \<rparr>"
  have "pending s1 = add_mset ?r0 (pending s)" using Enqueue(2) by (simp add: pending_def)
  from life_ok_enqueue[OF ok pos this] Enqueue(2) have 1: "life_ok s1 os i" by simp
  have "life_ok s' os i" using Enqueue(3) 1 life_ok_cong[of "processQueue s1" s1 os i] by auto
  then show ?thesis using Enqueue(1) by simp
next
  case (FnSettles j out r t0)
  let ?s0 = "s\<lparr>in_flight := remove1 (r, t0) (in_flight s)\<rparr>"
  note p = pending_in_flight_removed[OF FnSettles(2)]
  show ?thesis
  proof (cases "j = i")
    case True
    have "life_ok s' (os @ [out]) i"
      using ok _ p FnSettles(4)
    proof (rule life_ok_settles)
      show "rid r = i" using FnSettles(3) True by simp
    qed simp_all
    then show ?thesis using FnSettles(1) True by simp
  next
    case False
    have eff: "(pending s' = pending ?s0 \<or> (\<exists>r'. rid r' = rid r \<and> pending s' = add_mset r' (pending ?s0)))
        \<and> (settled s' = settled s \<or> (\<exists>x. settled s' = settled s @ [(rid r, x)]))"
    proof (cases out)
      case (Succeeds v)
      then show ?thesis using FnSettles(4) by (simp add: executeRequest_resumes_effect)
    next
      case (Fails e)
      show ?thesis
      proof (cases "int (attempts r + 1) < retryAttempts ?s0 \<and> retried_error e")
        case True
        from handleRequestError_effect(1)[OF True] show ?thesis
          using FnSettles(4) Fails by (simp add: executeRequest_resumes_effect)
      next
        case False
        from handleRequestError_effect(2)[OF False] show ?thesis
          using FnSettles(4) Fails by (simp add: executeRequest_resumes_effect)
      qed
    qed
    have "life_ok s' os i"
      using ok _ p
    proof (rule life_ok_other_settles)
      show "rid r \<noteq> i" using FnSettles(3) False by simp
      show "pending s' = pending ?s0 \<or> (\<exists>r'. rid r' = rid r \<and> pending s' = add_mset r' (pending ?s0))"
        using eff by blast
      show "settled s' = settled s \<or> (\<exists>x. settled s' = settled s @ [(rid r, x)])"
        using eff by blast
    qed (simp_all add: FnSettles(4))
    then show ?thesis using FnSettles(1) False by simp
  qed
next
  case (RetryTimerFires j due r s1)
  have "pending s1 = pending s" unfolding RetryTimerFires(4)
    by (rule pending_retry_moved[OF RetryTimerFires(2)])
  then have 1: "life_ok s1 os i"
    using ok life_ok_cong[of s1 s os i] RetryTimerFires(4) by simp
  have "life_ok s' os i"
    using RetryTimerFires(5) 1 life_ok_cong[of "processQueue s1" s1 os i] by auto
  then show ?thesis using RetryTimerFires(1) by simp
next
  case (PollTimerFires due)
  have "pending (s\<lparr>poll_timers := remove1 due (poll_timers s)\<rparr>) = pending s"
    by (simp add: pending_def)
  then have "life_ok s' os i"
    using ok life_ok_cong[of s' s os i] PollTimerFires(2) by simp
  then show ?thesis using PollTimerFires(1) by simp
next
  case LoopResumes
  have "pending (s\<lparr>waiting := None\<rparr>) = pending s" by (simp add: pending_def)
  then have "life_ok s' os i"
    using ok life_ok_cong[of s' s os i] LoopResumes(2) by simp
  then show ?thesis using LoopResumes(1) by simp
next
  case CleanupTimerFires
  then show ?thesis using ok life_ok_cong[of s' s os i] by (simp add: pending_def)
qed

lemma outcomes_of_Cons: "outcomes_of i (ev # evs) = outcomes_of i [ev] @ outcomes_of i evs"
  by (cases ev) auto

lemma life_ok_run:
  "rq_run evs s = Some s' \<Longrightarrow> 1 \<le> retryAttempts s \<Longrightarrow> life_ok s os i \<Longrightarrow>
     life_ok s' (os @ outcomes_of i evs) i"
proof (induction evs arbitrary: s os)
  case Nil
  then show ?case by simp
next
  case (Cons ev evs)
  from rq_run_Cons[OF Cons.prems(1)] obtain s1 where
    s1: "rq_step ev s = Some s1" "rq_run evs s1 = Some s'" by blast
  have 1: "life_ok s1 (os @ outcomes_of i [ev]) i"
    using s1(1) Cons.prems(2,3) by (rule life_ok_step)
  have 2: "1 \<le> retryAttempts s1" using config_step[OF s1(1)] Cons.prems(2) by simp
  from Cons.IH[OF s1(2) 2 1] show ?case
    using outcomes_of_Cons[of i ev evs] by simp
qed

lemma js_or_count_pos: "1 \<le> d \<Longrightarrow> 1 \<le> js_or (map_option int x) d"
  by (cases x) (auto simp: js_or_def)

lemma life_ok_init: "life_ok (new_RequestQueue opts t0) [] i"
  by (simp add: life_ok_def new_RequestQueue_def pending_as_def pending_def settled_as_def)

lemma life_ok_reachable:
  assumes "rq_run evs (new_RequestQueue opts t0) = Some s"
  shows "life_ok s (outcomes_of i evs) i" and "1 \<le> retryAttempts s"
proof -
  have pos: "1 \<le> retryAttempts (new_RequestQueue opts t0 :: 'a request_queue)"
    by (simp add: new_RequestQueue_def js_or_count_pos)
  from life_ok_run[OF assms pos life_ok_init] show "life_ok s (outcomes_of i evs) i" by simp
  from config_run[OF assms] pos show "1 \<le> retryAttempts s" by simp
qed

lemma set_insert_by_priority [simp]: "set (insert_by_priority r q) = insert r (set q)"
  by (induction q) auto

lemma served_before_priority: "served_before a b \<Longrightarrow> rq_priority b \<le> rq_priority a"
  by (auto simp: served_before_def)

lemma sorted_insert_by_priority:
  "sorted_wrt served_before q \<Longrightarrow> (\<forall>x \<in> set q. rid x < rid r) \<Longrightarrow>
     sorted_wrt served_before (insert_by_priority r q)"
proof (induction q)
  case Nil
  then show ?case by simp
next
  case (Cons x xs)
  show ?case
  proof (cases "rq_priority x < rq_priority r")
    case True
    have "\<forall>y \<in> set (x # xs). served_before r y"
    proof
      fix y assume y: "y \<in> set (x # xs)"
      have "rq_priority y \<le> rq_priority x"
        using y Cons.prems(1) by (auto dest: served_before_priority)
      then show "served_before r y" using True by (simp add: served_before_def)
    qed
    then show ?thesis using True Cons.prems(1) by simp
  next
    case False
    have "served_before x r" using False Cons.prems(2) by (auto simp: served_before_def)
    moreover have "sorted_wrt served_before (insert_by_priority r xs)"
      using Cons by simp
    ultimately show ?thesis using False Cons.prems(1) by auto
  qed
qed

text \<open>Where \<open>enqueue\<close> puts a request: after every request whose priority is not lower.\<close>

lemma insert_by_priority_position:
  "insert_by_priority r q =
     takeWhile (\<lambda>x. \<not> rq_priority x < rq_priority r) q
     @ r # dropWhile (\<lambda>x. \<not> rq_priority x < rq_priority r) q"
  by (induction q) auto

lemma insert_by_priority_append:
  "insert_by_priority r (P @ S) =
     (if \<exists>x \<in> set P. rq_priority x < rq_priority r
      then insert_by_priority r P @ S else P @ insert_by_priority r S)"
  by (induction P) auto

lemma insert_by_priority_last:
  "\<exists>x \<in> set P. rq_priority x < rq_priority r \<Longrightarrow> last (insert_by_priority r P) = last P"
proof (induction P)
  case Nil
  then show ?case by simp
next
  case (Cons x xs)
  show ?case
  proof (cases "rq_priority x < rq_priority r")
    case True
    then show ?thesis by simp
  next
    case False
    with Cons.prems have ex: "\<exists>x \<in> set xs. rq_priority x < rq_priority r" by auto
    then have "xs \<noteq> []" by auto
    moreover have "insert_by_priority r xs \<noteq> []" by (cases xs) auto
    ultimately show ?thesis using False Cons.IH[OF ex] by simp
  qed
qed

lemma insert_by_priority_nonempty [simp]: "insert_by_priority r q \<noteq> []"
  by (cases q) auto

lemma tail_ordered_insert:
  assumes "tail_ordered q" and "attempts r = 0" and "\<forall>x \<in> set q. rid x < rid r"
  shows "tail_ordered (insert_by_priority r q)"
proof -
  from assms(1) obtain P S where ps: "q = P @ S" "sorted_wrt served_before S"
      "\<forall>r \<in> set S. attempts r = 0" "P = [] \<or> 0 < attempts (last P)"
    unfolding tail_ordered_def by blast
  show ?thesis
  proof (cases "\<exists>x \<in> set P. rq_priority x < rq_priority r")
    case True
    then have ne: "P \<noteq> []" by auto
    have "insert_by_priority r q = insert_by_priority r P @ S"
      using True ps(1) by (simp add: insert_by_priority_append)
    moreover have "0 < attempts (last (insert_by_priority r P))"
      using insert_by_priority_last[OF True] ps(4) ne by simp
    ultimately show ?thesis unfolding tail_ordered_def using ps(2,3) by blast
  next
    case False
    then have e: "insert_by_priority r q = P @ insert_by_priority r S"
      using ps(1) by (simp add: insert_by_priority_append)
    have "sorted_wrt served_before (insert_by_priority r S)"
      using ps(2) assms(3) ps(1) by (intro sorted_insert_by_priority) auto
    moreover have "\<forall>x \<in> set (insert_by_priority r S). attempts x = 0"
      using ps(3) assms(2) by simp
    ultimately show ?thesis unfolding tail_ordered_def using e ps(4) by blast
  qed
qed

lemma tail_ordered_requeue:
  assumes "tail_ordered q" and "0 < attempts r"
  shows "tail_ordered (r # q)"
proof -
  from assms(1) obtain P S where ps: "q = P @ S" "sorted_wrt served_before S"
      "\<forall>r \<in> set S. attempts r = 0" "P = [] \<or> 0 < attempts (last P)"
    unfolding tail_ordered_def by blast
  have "r # q = (r # P) @ S" using ps(1) by simp
  moreover have "0 < attempts (last (r # P))" using ps(4) assms(2) by auto
  ultimately show ?thesis unfolding tail_ordered_def using ps(2,3) by blast
qed

lemma tail_ordered_drop:
  assumes "tail_ordered q"
  shows "tail_ordered (drop k q)"
proof -
  from assms obtain P S where ps: "q = P @ S" "sorted_wrt served_before S"
      "\<forall>r \<in> set S. attempts r = 0" "P = [] \<or> 0 < attempts (last P)"
    unfolding tail_ordered_def by blast
  have e: "drop k q = drop k P @ drop (k - length P) S" using ps(1) by simp
  have "sorted_wrt served_before (drop (k - length P) S)" using ps(2) by (rule sorted_wrt_drop)
  moreover have "\<forall>r \<in> set (drop (k - length P) S). attempts r = 0"
    using ps(3) by (auto dest: in_set_dropD)
  moreover have "drop k P = [] \<or> 0 < attempts (last (drop k P))"
    using ps(4) by (cases "k < length P") auto
  ultimately show ?thesis unfolding tail_ordered_def using e by blast
qed

lemma tail_ordered_unretried:
  assumes "tail_ordered q" and "\<forall>r \<in> set q. attempts r = 0"
  shows "sorted_wrt served_before q"
proof -
  from assms(1) obtain P S where ps: "q = P @ S" "sorted_wrt served_before S"
      "P = [] \<or> 0 < attempts (last P)"
    unfolding tail_ordered_def by blast
  have "P = []"
  proof (rule ccontr)
    assume "P \<noteq> []"
    then have "last P \<in> set q" "0 < attempts (last P)" using ps(1,3) by auto
    with assms(2) show False by auto
  qed
  with ps show ?thesis by simp
qed

lemma order_ok_process_loop: "order_ok s \<Longrightarrow> order_ok (process_loop s)"
proof -
  assume ok: "order_ok s"
  from process_loop_serves_head[of s] obtain k where
    k: "queue (process_loop s) = drop k (queue s)" by blast
  have "tail_ordered (drop k (queue s))" using ok by (simp add: order_ok_def tail_ordered_drop)
  then show ?thesis using k ok by (simp add: order_ok_def)
qed

lemma order_ok_processQueue: "order_ok s \<Longrightarrow> order_ok (processQueue s)"
proof -
  assume ok: "order_ok s"
  have "pending (s\<lparr>processing := True\<rparr>) = pending s" by (simp add: pending_def)
  then have "order_ok (s\<lparr>processing := True\<rparr>)" using ok by (simp add: order_ok_def)
  then have "order_ok (process_loop (s\<lparr>processing := True\<rparr>))" by (rule order_ok_process_loop)
  with ok show ?thesis by (simp add: processQueue_def)
qed

lemma retry_timers_handleRequestError:
  "retry_timers (handleRequestError r e s) = retry_timers s
   \<or> (\<exists>due. retry_timers (handleRequestError r e s)
               = retry_timers s @ [(due, r\<lparr>attempts := attempts r + 1\<rparr>)])"
  by (auto simp: handleRequestError_def Let_def)

lemma retry_timers_executeRequest_resumes:
  "retry_timers (executeRequest_resumes r t0 out s) = retry_timers s
   \<or> (\<exists>due. retry_timers (executeRequest_resumes r t0 out s)
               = retry_timers s @ [(due, r\<lparr>attempts := attempts r + 1\<rparr>)])"
  using retry_timers_handleRequestError[of r _ s]
  by (cases out) (auto simp: executeRequest_resumes_def Let_def)

lemma pending_executeRequest_resumes:
  "pending (executeRequest_resumes r t0 out s) = pending s
   \<or> pending (executeRequest_resumes r t0 out s) = add_mset (r\<lparr>attempts := attempts r + 1\<rparr>) (pending s)"
proof (cases out)
  case (Succeeds v)
  then show ?thesis by (simp add: executeRequest_resumes_effect)
next
  case (Fails e)
  show ?thesis
  proof (cases "int (attempts r + 1) < retryAttempts s \<and> retried_error e")
    case True
    from handleRequestError_effect(1)[OF True] Fails show ?thesis
      by (simp add: executeRequest_resumes_effect)
  next
    case False
    from handleRequestError_effect(2)[OF False] Fails show ?thesis
      by (simp add: executeRequest_resumes_effect)
  qed
qed

lemma order_ok_step:
  assumes "rq_step ev s = Some s'" "order_ok s"
  shows "order_ok s'"
  using assms(1)
proof (cases rule: rq_step_cases)
  case (Tick d)
  have "pending s' = pending s" using Tick(2) by (simp add: pending_def)
  with assms(2) Tick(2) show ?thesis by (simp add: order_ok_def)
next
  case (Enqueue p s1)
  let ?r0 = "\<lparr> rid = next_rid s, rq_priority = p, attempts = 0, startTime = clock s \<rparr>"
  have q: "\<forall>x \<in> set (queue s). rid x < rid ?r0"
    using assms(2) by (auto simp: order_ok_def pending_def)
  have "tail_ordered (insert_by_priority ?r0 (queue s))"
    using assms(2) q by (intro tail_ordered_insert) (auto simp: order_ok_def)
  moreover have "pending s1 = add_mset ?r0 (pending s)"
    using Enqueue(2) by (simp add: pending_def)
  ultimately have 1: "order_ok s1" using assms(2) Enqueue(2) by (auto simp: order_ok_def)
  with Enqueue(3) order_ok_processQueue[OF 1] show ?thesis by auto
next
  case (FnSettles i out r t0)
  let ?s2 = "s\<lparr>in_flight := remove1 (r, t0) (in_flight s)\<rparr>"
  let ?r' = "r\<lparr>attempts := attempts r + 1\<rparr>"
  from pending_in_flight_removed[OF FnSettles(2)] have p: "pending s = add_mset r (pending ?s2)" .
  have rid: "\<forall>x \<in># pending s. rid x < next_rid s" using assms(2) by (simp add: order_ok_def)
  then have r: "rid r < next_rid s" using p by simp
  have sub: "\<forall>x \<in># pending ?s2. rid x < next_rid s" using rid p by simp
  have 1: "tail_ordered (queue s')" using assms(2) FnSettles(4) by (simp add: order_ok_def)
  have 2: "\<forall>x \<in># pending s'. rid x < next_rid s'"
    using pending_executeRequest_resumes[of r t0 out ?s2] sub r unfolding FnSettles(4) by auto
  have 3: "\<forall>p \<in> set (retry_timers s'). 0 < attempts (snd p)"
    using retry_timers_executeRequest_resumes[of r t0 out ?s2] assms(2)
    unfolding FnSettles(4) by (auto simp: order_ok_def)
  from 1 2 3 show ?thesis by (simp add: order_ok_def)
next
  case (RetryTimerFires i due r s1)
  have a: "0 < attempts r" using assms(2) RetryTimerFires(2) by (auto simp: order_ok_def)
  have "tail_ordered (r # queue s)"
    using assms(2) a by (intro tail_ordered_requeue) (simp_all add: order_ok_def)
  moreover have "pending s1 = pending s"
    unfolding RetryTimerFires(4) using RetryTimerFires(2) by (rule pending_retry_moved)
  moreover have "\<forall>p \<in> set (retry_timers s1). 0 < attempts (snd p)"
    using assms(2) unfolding RetryTimerFires(4) by (auto simp: order_ok_def dest: notin_set_remove1)
  ultimately have 1: "order_ok s1" using assms(2) RetryTimerFires(4) by (simp add: order_ok_def)
  with RetryTimerFires(5) order_ok_processQueue[OF 1] show ?thesis by auto
next
  case (PollTimerFires due)
  have "pending (s\<lparr>poll_timers := remove1 due (poll_timers s)\<rparr>) = pending s" by (simp add: pending_def)
  then have "order_ok (s\<lparr>poll_timers := remove1 due (poll_timers s)\<rparr>)"
    using assms(2) by (simp add: order_ok_def)
  then show ?thesis unfolding PollTimerFires(2) by (rule order_ok_processQueue)
next
  case LoopResumes
  have "pending (s\<lparr>waiting := None\<rparr>) = pending s" by (simp add: pending_def)
  then have "order_ok (s\<lparr>waiting := None\<rparr>)" using assms(2) by (simp add: order_ok_def)
  then show ?thesis unfolding LoopResumes(2) by (rule order_ok_process_loop)
next
  case CleanupTimerFires
  have "pending s' = pending s" using CleanupTimerFires(2) by (simp add: pending_def)
  with assms(2) CleanupTimerFires(2) show ?thesis by (simp add: order_ok_def)
qed

lemma order_ok_run:
  "rq_run evs s = Some s' \<Longrightarrow> order_ok s \<Longrightarrow> order_ok s'"
proof (induction evs arbitrary: s)
  case Nil
  then show ?case by simp
next
  case (Cons ev evs)
  from rq_run_Cons[OF Cons.prems(1)] obtain s1 where
    s1: "rq_step ev s = Some s1" "rq_run evs s1 = Some s'" by blast
  from order_ok_step[OF s1(1) Cons.prems(2)] have 1: "order_ok s1" .
  from Cons.IH[OF s1(2) 1] show ?case .
qed

lemma order_ok_init: "order_ok (new_RequestQueue opts t0)"
  by (simp add: order_ok_def tail_ordered_def new_RequestQueue_def pending_def)

lemma processQueue_serves_head:
  "\<exists>k. queue (processQueue s) = drop k (queue s)
      \<and> map fst (started (processQueue s)) = map fst (started s) @ map rid (take k (queue s))"
proof (cases "processing s \<or> length (queue s) = 0")
  case True
  then have "queue (processQueue s) = drop 0 (queue s)
      \<and> map fst (started (processQueue s)) = map fst (started s) @ map rid (take 0 (queue s))"
    by (simp add: processQueue_def)
  then show ?thesis by blast
next
  case False
  from process_loop_serves_head[of "s\<lparr>processing := True\<rparr>"] obtain k where
    "queue (process_loop (s\<lparr>processing := True\<rparr>)) = drop k (queue s)"
    "started (process_loop (s\<lparr>processing := True\<rparr>))
       = started s @ map (\<lambda>r. (rid r, clock s)) (take k (queue s))"
    by auto
  then have "queue (processQueue s) = drop k (queue s)
      \<and> map fst (started (processQueue s)) = map fst (started s) @ map rid (take k (queue s))"
    using False by (simp add: processQueue_def comp_def)
  then show ?thesis by blast
qed

lemma queued_attempts:
  assumes "rq_run evs (new_RequestQueue opts t0) = Some s" and "r \<in> set (queue s)"
  shows "attempts r = length (outcomes_of (rid r) evs)"
proof -
  have "r \<in># pending s" using assms(2) by (simp add: pending_def)
  then have mem: "r \<in># pending_as s (rid r)" by (simp add: pending_as_def)
  from life_ok_reachable(1)[OF assms(1), of "rid r"]
  have "life_ok s (outcomes_of (rid r) evs) (rid r)" .
  then show ?thesis using mem
    by (auto simp: life_ok_def split: if_splits)
qed

text \<open>
  C4, as the code has it. In every reachable state the queue is ordered behind its
  re-queued requests: the part after the last queued request that has been re-queued
  by a retry timer holds requests that have not failed before, and of two of them the
  one ahead has the higher priority or, at equal priority, was submitted earlier. So
  the whole queue is in that order whenever no re-queued request waits in it. The
  \<open>attempts\<close> of a queued request count the failures it has had. \<open>processQueue\<close> and
  its loop start requests from the head of the queue, in order. A retry timer puts
  its request at the head of the queue, whatever its priority; \<open>enqueue\<close> puts a new
  request before the first queued request of strictly lower priority, re-queued or
  not, and at the end when there is none.
\<close>

theorem queue_order_behind_requeued:
  assumes "rq_run evs (new_RequestQueue opts t0) = Some s"
  shows "(\<exists>P S. queue s = P @ S \<and> sorted_wrt served_before S \<and> (\<forall>r \<in> set S. attempts r = 0)
              \<and> (P = [] \<or> 0 < attempts (last P)))
       \<and> ((\<forall>r \<in> set (queue s). attempts r = 0) \<longrightarrow> sorted_wrt served_before (queue s))
       \<and> (\<forall>r \<in> set (queue s). attempts r = length (outcomes_of (rid r) evs))
       \<and> (\<exists>k. queue (processQueue s) = drop k (queue s)
              \<and> map fst (started (processQueue s)) = map fst (started s) @ map rid (take k (queue s)))
       \<and> (\<exists>k. queue (process_loop s) = drop k (queue s)
              \<and> map fst (started (process_loop s)) = map fst (started s) @ map rid (take k (queue s)))
       \<and> (\<forall>j s'. rq_step (RetryTimerFires j) s = Some s' \<longrightarrow>
            (\<exists>due r k. (due, r) \<in> set (retry_timers s) \<and> rid r = j \<and> 0 < attempts r
                \<and> queue s' = drop k (r # queue s)
                \<and> map fst (started s') = map fst (started s) @ map rid (take k (r # queue s))))
       \<and> (\<forall>p s'. rq_step (Enqueue p) s = Some s' \<longrightarrow>
            (\<exists>r k. rid r = next_rid s \<and> rq_priority r = p \<and> attempts r = 0
                \<and> queue s' = drop k (takeWhile (\<lambda>x. \<not> rq_priority x < p) (queue s)
                                       @ r # dropWhile (\<lambda>x. \<not> rq_priority x < p) (queue s))
                \<and> map fst (started s')
                    = map fst (started s)
                      @ map rid (take k (takeWhile (\<lambda>x. \<not> rq_priority x < p) (queue s)
                                          @ r # dropWhile (\<lambda>x. \<not> rq_priority x < p) (queue s)))))"
proof -
  from order_ok_run[OF assms order_ok_init] have ok: "order_ok s" .
  then have 1: "\<exists>P S. queue s = P @ S \<and> sorted_wrt served_before S \<and> (\<forall>r \<in> set S. attempts r = 0)
              \<and> (P = [] \<or> 0 < attempts (last P))"
    by (simp add: order_ok_def tail_ordered_def)
  have 2: "(\<forall>r \<in> set (queue s). attempts r = 0) \<longrightarrow> sorted_wrt served_before (queue s)"
    using ok tail_ordered_unretried[of "queue s"] by (simp add: order_ok_def)
  have 3: "\<forall>r \<in> set (queue s). attempts r = length (outcomes_of (rid r) evs)"
    using queued_attempts[OF assms] by blast
  have 5: "\<exists>k. queue (process_loop s) = drop k (queue s)
              \<and> map fst (started (process_loop s)) = map fst (started s) @ map rid (take k (queue s))"
  proof -
    from process_loop_serves_head[of s] obtain k where
      "queue (process_loop s) = drop k (queue s)"
      "started (process_loop s) = started s @ map (\<lambda>r. (rid r, clock s)) (take k (queue s))"
      by blast
    then have "queue (process_loop s) = drop k (queue s)
      \<and> map fst (started (process_loop s)) = map fst (started s) @ map rid (take k (queue s))"
      by (simp add: comp_def)
    then show ?thesis by blast
  qed
  have 6: "\<exists>due r k. (due, r) \<in> set (retry_timers s) \<and> rid r = j \<and> 0 < attempts r
                \<and> queue s' = drop k (r # queue s)
                \<and> map fst (started s') = map fst (started s) @ map rid (take k (r # queue s))"
    if "rq_step (RetryTimerFires j) s = Some s'" for j s'
    using that
  proof (cases rule: rq_step_cases)
    case (RetryTimerFires i due r s1)
    have a: "0 < attempts r" using ok RetryTimerFires(2) by (auto simp: order_ok_def)
    from RetryTimerFires(5) show ?thesis
    proof
      assume "s' = s1"
      then have "queue s' = drop 0 (r # queue s)
        \<and> map fst (started s') = map fst (started s) @ map rid (take 0 (r # queue s))"
        using RetryTimerFires(4) by simp
      then show ?thesis using RetryTimerFires(1,2,3) a by blast
    next
      assume "s' = processQueue s1"
      with processQueue_serves_head[of s1] obtain k where
        "queue s' = drop k (r # queue s)
        \<and> map fst (started s') = map fst (started s) @ map rid (take k (r # queue s))"
        using RetryTimerFires(4) by auto
      then show ?thesis using RetryTimerFires(1,2,3) a by blast
    qed
  qed simp_all
  have 7: "\<exists>r k. rid r = next_rid s \<and> rq_priority r = p \<and> attempts r = 0
                \<and> queue s' = drop k (takeWhile (\<lambda>x. \<not> rq_priority x < p) (queue s)
                                       @ r # dropWhile (\<lambda>x. \<not> rq_priority x < p) (queue s))
                \<and> map fst (started s')
                    = map fst (started s)
                      @ map rid (take k (takeWhile (\<lambda>x. \<not> rq_priority x < p) (queue s)
                                          @ r # dropWhile (\<lambda>x. \<not> rq_priority x < p) (queue s)))"
    if "rq_step (Enqueue p) s = Some s'" for p s'
    using that
  proof (cases rule: rq_step_cases)
    case (Enqueue p' s1)
    let ?r0 = "\<lparr> rid = next_rid s, rq_priority = p, attempts = 0, startTime = clock s \<rparr>"
    let ?q = "takeWhile (\<lambda>x. \<not> rq_priority x < p) (queue s)
                @ ?r0 # dropWhile (\<lambda>x. \<not> rq_priority x < p) (queue s)"
    have pp: "p' = p" using Enqueue(1) by simp
    have q1: "queue s1 = ?q" "started s1 = started s"
      using Enqueue(2) pp insert_by_priority_position[of ?r0 "queue s"] by simp_all
    from Enqueue(3) have "\<exists>k. queue s' = drop k ?q
        \<and> map fst (started s') = map fst (started s) @ map rid (take k ?q)"
    proof
      assume "s' = s1"
      then have "queue s' = drop 0 ?q
        \<and> map fst (started s') = map fst (started s) @ map rid (take 0 ?q)"
        using q1 by simp
      then show ?thesis by blast
    next
      assume "s' = processQueue s1"
      with processQueue_serves_head[of s1] show ?thesis using q1 by auto
    qed
    then obtain k where "queue s' = drop k ?q
        \<and> map fst (started s') = map fst (started s) @ map rid (take k ?q)" by blast
    moreover have "rid ?r0 = next_rid s \<and> rq_priority ?r0 = p \<and> attempts ?r0 = 0" by simp
    ultimately show ?thesis by blast
  qed simp_all
  have r6: "\<forall>j s'. rq_step (RetryTimerFires j) s = Some s' \<longrightarrow>
            (\<exists>due r k. (due, r) \<in> set (retry_timers s) \<and> rid r = j \<and> 0 < attempts r
                \<and> queue s' = drop k (r # queue s)
                \<and> map fst (started s') = map fst (started s) @ map rid (take k (r # queue s)))"
    using 6 by blast
  have r7: "\<forall>p s'. rq_step (Enqueue p) s = Some s' \<longrightarrow>
            (\<exists>r k. rid r = next_rid s \<and> rq_priority r = p \<and> attempts r = 0
                \<and> queue s' = drop k (takeWhile (\<lambda>x. \<not> rq_priority x < p) (queue s)
                                       @ r # dropWhile (\<lambda>x. \<not> rq_priority x < p) (queue s))
                \<and> map fst (started s')
                    = map fst (started s)
                      @ map rid (take k (takeWhile (\<lambda>x. \<not> rq_priority x < p) (queue s)
                                          @ r # dropWhile (\<lambda>x. \<not> rq_priority x < p) (queue s))))"
    using 7 by blast
  show ?thesis
    by (intro conjI) (rule 1 2 3 processQueue_serves_head 5 r6 r7)+
qed

lemma rate_ok_init: "rate_ok (new_RequestQueue opts t0)"
proof -
  have "0 \<le> js_or (map_option int (opt_maxRequestsPerSecond opts)) 10"
    using js_or_count_pos[of 10 "opt_maxRequestsPerSecond opts"] by simp
  then show ?thesis
    by (auto simp: rate_ok_def new_RequestQueue_def starts_in_window_def)
qed

lemma conc_ok_init: "conc_ok (new_RequestQueue opts t0)"
proof -
  have "0 \<le> js_or (map_option int (opt_maxConcurrent opts)) 5"
    using js_or_count_pos[of 5 "opt_maxConcurrent opts"] by simp
  then show ?thesis by (simp add: conc_ok_def new_RequestQueue_def)
qed

lemma no_start_when_rate_limited:
  "\<not> canMakeRequest s \<Longrightarrow> started (process_loop s) = started s"
  by (cases "loop_exits s") (simp_all add: process_loop_exit process_loop_wait)

lemma no_start_when_saturated:
  "maxConcurrent s \<le> activeRequests s \<Longrightarrow>
     started (process_loop s) = started s \<and> in_flight (process_loop s) = in_flight s"
proof -
  assume "maxConcurrent s \<le> activeRequests s"
  then have "loop_exits s" by (simp add: loop_exits_def)
  then show ?thesis by (simp add: process_loop_exit)
qed

text \<open>
  C1. In every state the queue can reach, every window \<open>(t - 1000, t]\<close> of one second
  holds at most \<open>maxRequestsPerSecond\<close> recorded starts (the clock never runs
  backwards), and the loop starts nothing when it is entered with \<open>canMakeRequest\<close>
  false.
\<close>

theorem rate_window_bound:
  assumes "rq_run evs (new_RequestQueue opts t0) = Some s"
  shows "int (starts_in_window s t) \<le> maxRequestsPerSecond s
       \<and> maxRequestsPerSecond s = js_or (map_option int (opt_maxRequestsPerSecond opts)) 10
       \<and> (\<forall>s1 :: 'v request_queue. \<not> canMakeRequest s1 \<longrightarrow> started (process_loop s1) = started s1)"
proof -
  from rate_ok_run[OF assms rate_ok_init] have "int (starts_in_window s t) \<le> maxRequestsPerSecond s"
    by (simp add: rate_ok_def)
  moreover from config_run[OF assms]
  have "maxRequestsPerSecond s = js_or (map_option int (opt_maxRequestsPerSecond opts)) 10"
    by (simp add: new_RequestQueue_def)
  ultimately show ?thesis using no_start_when_rate_limited by blast
qed

text \<open>
  C2. In every state the queue can reach, \<open>activeRequests\<close> is the number of
  operations started and not yet settled, and it is at most \<open>maxConcurrent\<close>; the
  loop starts nothing when it is entered with \<open>activeRequests \<ge> maxConcurrent\<close>.
\<close>

theorem concurrency_cap:
  assumes "rq_run evs (new_RequestQueue opts t0) = Some s"
  shows "int (length (in_flight s)) = activeRequests s
       \<and> activeRequests s \<le> maxConcurrent s
       \<and> maxConcurrent s = js_or (map_option int (opt_maxConcurrent opts)) 5
       \<and> (\<forall>s1 :: 'v request_queue. maxConcurrent s1 \<le> activeRequests s1 \<longrightarrow>
             started (process_loop s1) = started s1 \<and> in_flight (process_loop s1) = in_flight s1)"
proof -
  from conc_ok_run[OF assms conc_ok_init]
  have "int (length (in_flight s)) = activeRequests s \<and> activeRequests s \<le> maxConcurrent s"
    by (simp add: conc_ok_def)
  moreover from config_run[OF assms]
  have "maxConcurrent s = js_or (map_option int (opt_maxConcurrent opts)) 5"
    by (simp add: new_RequestQueue_def)
  ultimately show ?thesis using no_start_when_saturated by blast
qed

lemma retried_failure_simps [simp]:
  "retried_failure (Succeeds v) = False"
  "retried_failure (Fails e) = retried_error e"
  by (simp_all add: retried_failure_def)

lemma list_all_retried_map: "list_all retried_failure (map Fails es) = list_all retried_error es"
  by (induction es) (simp_all add: retried_failure_def)

text \<open>
  C3. For a request \<open>i\<close> and any run of the queue, by the results its attempts had:
  retried failures (rate-limit or transient) \<open>retryAttempts - 1\<close> times, then a
  success: the promise is fulfilled, once, with the value of the last attempt;
  retried failures \<open>retryAttempts\<close> times: it is rejected, once, with the last error;
  a terminal failure: it is rejected with that error and the request is pending
  nowhere, so no retry follows. With fewer than \<open>retryAttempts\<close> retried failures
  and nothing else, the request is still pending and unsettled.
\<close>

theorem retry_policy:
  assumes "rq_run evs (new_RequestQueue opts t0) = Some s"
  shows "retryAttempts s = js_or (map_option int (opt_retryAttempts opts)) 3
       \<and> (\<forall>es v. outcomes_of i evs = map Fails es @ [Succeeds v] \<and> list_all retried_error es
                  \<and> int (length es) = retryAttempts s - 1
              \<longrightarrow> settled_as s i = [Fulfilled v] \<and> pending_as s i = {#})
       \<and> (\<forall>es. outcomes_of i evs = map Fails es \<and> list_all retried_error es
                  \<and> int (length es) = retryAttempts s
              \<longrightarrow> settled_as s i = [RejectedWith (last es)] \<and> pending_as s i = {#})
       \<and> (\<forall>os e. outcomes_of i evs = os @ [Fails e] \<and> \<not> retried_error e
              \<longrightarrow> settled_as s i = [RejectedWith e] \<and> pending_as s i = {#})
       \<and> (\<forall>es. outcomes_of i evs = map Fails es \<and> list_all retried_error es
                  \<and> int (length es) < retryAttempts s \<and> i < next_rid s
              \<longrightarrow> settled_as s i = [] \<and> (\<exists>r. pending_as s i = {#r#} \<and> attempts r = length es))"
proof -
  note ok = life_ok_reachable(1)[OF assms, of i] life_ok_reachable(2)[OF assms]
  let ?os = "outcomes_of i evs"
  have settled_case: "settled_as s i = [result_of (last ?os)] \<and> pending_as s i = {#}"
    if "?os \<noteq> []" "\<not> (list_all retried_failure ?os \<and> int (length ?os) < retryAttempts s)"
    using ok(1) that by (auto simp: life_ok_def split: if_splits)
  have pending_case: "settled_as s i = [] \<and> (\<exists>r. pending_as s i = {#r#} \<and> attempts r = length ?os)"
    if "list_all retried_failure ?os" "int (length ?os) < retryAttempts s" "i < next_rid s"
    using ok(1) that by (auto simp: life_ok_def split: if_splits)
  have 0: "retryAttempts s = js_or (map_option int (opt_retryAttempts opts)) 3"
    using config_run[OF assms] by (simp add: new_RequestQueue_def)
  have a: "settled_as s i = [Fulfilled v] \<and> pending_as s i = {#}"
    if "?os = map Fails es @ [Succeeds v]" for es v
  proof -
    have "\<not> list_all retried_failure ?os" using that by simp
    moreover have "?os \<noteq> []" "last ?os = Succeeds v" using that by simp_all
    ultimately show ?thesis using settled_case by (simp add: result_of_def)
  qed
  have b: "settled_as s i = [RejectedWith (last es)] \<and> pending_as s i = {#}"
    if "?os = map Fails es" "int (length es) = retryAttempts s" for es
  proof -
    have ne: "es \<noteq> []" using that(2) ok(2) by auto
    then have "last ?os = Fails (last es)" using that(1) by (simp add: last_map)
    moreover have "\<not> int (length ?os) < retryAttempts s" using that by simp
    moreover have "?os \<noteq> []" using ne that(1) by simp
    ultimately show ?thesis using settled_case by (simp add: result_of_def)
  qed
  have c: "settled_as s i = [RejectedWith e] \<and> pending_as s i = {#}"
    if "?os = os @ [Fails e]" "\<not> retried_error e" for os e
  proof -
    have "\<not> list_all retried_failure ?os" using that by simp
    moreover have "?os \<noteq> []" "last ?os = Fails e" using that by simp_all
    ultimately show ?thesis using settled_case by (simp add: result_of_def)
  qed
  have d: "settled_as s i = [] \<and> (\<exists>r. pending_as s i = {#r#} \<and> attempts r = length es)"
    if "?os = map Fails es" "list_all retried_error es" "int (length es) < retryAttempts s"
       "i < next_rid s" for es
    using pending_case that by (simp add: list_all_retried_map)
  from 0 a b c d show ?thesis by blast
qed

text \<open>
  C4 as stated fails. Request 0 (priority 0) fails and is re-queued by its retry
  timer while request 2 (priority 5) waits: the queue is then request 0, request 2,
  and when the running operation ends it is request 0 that is started, at 1100,
  request 2 still waiting.
\<close>

theorem retried_request_served_before_higher_priority:
  "map_option queue_view (rq_run retry_requeued (new_RequestQueue one_at_a_time 1000))
     = Some [(0, 0), (2, 5)]
   \<and> map_option started (rq_run retry_served (new_RequestQueue one_at_a_time 1000))
     = Some [(0, 1000), (1, 1000), (0, 1100)]
   \<and> map_option queue_view (rq_run retry_served (new_RequestQueue one_at_a_time 1000))
     = Some [(2, 5)]"
  by code_simp

lemma rq_run_append:
  "rq_run (evs @ evs') s = (case rq_run evs s of None \<Rightarrow> None | Some s1 \<Rightarrow> rq_run evs' s1)"
  by (induction evs arbitrary: s) (auto split: option.splits)

lemma example_errors:
  "retried_error timeout_error" "retried_error rate_error" "\<not> retried_error terminal_error"
  by code_simp+

lemma run_exists: "map_option f (rq_run evs s0) = Some x \<Longrightarrow> \<exists>s. rq_run evs s0 = Some s \<and> f s = x"
  by (cases "rq_run evs s0") auto

text \<open>
  Five operations under a limit of two per second start at 1000, 1000, 2050, 2050 and
  3100; after three submissions the limit is reached and the loop starts nothing.
\<close>

theorem rate_window_bound_witness:
  "(\<exists>s. rq_run five_submitted (new_RequestQueue two_per_second 1000) = Some s
        \<and> started s = [(0, 1000), (1, 1000), (2, 2050), (3, 2050), (4, 3100)]
        \<and> int (starts_in_window s 2050) \<le> 2 \<and> int (starts_in_window s 3049) \<le> 2)
   \<and> (\<exists>s1. rq_run three_submitted (new_RequestQueue two_per_second 1000) = Some s1
        \<and> \<not> canMakeRequest s1 \<and> started (process_loop s1) = started s1)"
proof -
  have "map_option started (rq_run five_submitted (new_RequestQueue two_per_second 1000))
          = Some [(0, 1000), (1, 1000), (2, 2050), (3, 2050), (4, 3100)]"
    by code_simp
  from run_exists[OF this] obtain s where
    s: "rq_run five_submitted (new_RequestQueue two_per_second 1000) = Some s"
       "started s = [(0, 1000), (1, 1000), (2, 2050), (3, 2050), (4, 3100)]" by blast
  have lim: "js_or (map_option int (opt_maxRequestsPerSecond two_per_second)) 10 = 2"
    by (simp add: two_per_second_def js_or_def)
  from rate_window_bound[OF s(1), of 2050] rate_window_bound[OF s(1), of 3049] lim
  have a: "int (starts_in_window s 2050) \<le> 2" "int (starts_in_window s 3049) \<le> 2" by auto
  have "map_option canMakeRequest (rq_run three_submitted (new_RequestQueue two_per_second 1000))
          = Some False"
    by code_simp
  from run_exists[OF this] obtain s1 where
    s1: "rq_run three_submitted (new_RequestQueue two_per_second 1000) = Some s1"
        "canMakeRequest s1 = False" by blast
  from rate_window_bound[OF s(1), of 0] s1(2)
  have "started (process_loop s1) = started s1" by blast
  with s a s1 show ?thesis by auto
qed

text \<open>
  With \<open>maxConcurrent = 1\<close>: one operation runs, two requests wait in the queue, and
  the loop starts neither.
\<close>

theorem concurrency_cap_witness:
  "\<exists>s. rq_run retry_requeued (new_RequestQueue one_at_a_time 1000) = Some s
      \<and> length (in_flight s) = 1 \<and> activeRequests s = 1 \<and> maxConcurrent s = 1
      \<and> queue_view s = [(0, 0), (2, 5)]
      \<and> started (process_loop s) = started s \<and> in_flight (process_loop s) = in_flight s"
proof -
  have "map_option queue_view (rq_run retry_requeued (new_RequestQueue one_at_a_time 1000))
          = Some [(0, 0), (2, 5)]"
    by code_simp
  from run_exists[OF this] obtain s where
    s: "rq_run retry_requeued (new_RequestQueue one_at_a_time 1000) = Some s"
       "queue_view s = [(0, 0), (2, 5)]" by blast
  have "map_option activeRequests (rq_run retry_requeued (new_RequestQueue one_at_a_time 1000)) = Some 1"
    by code_simp
  with s(1) have act: "activeRequests s = 1" by simp
  have lim: "js_or (map_option int (opt_maxConcurrent one_at_a_time)) 5 = 1"
    by (simp add: one_at_a_time_def js_or_def)
  from concurrency_cap[OF s(1)] lim act
  have c: "int (length (in_flight s)) = 1" "maxConcurrent s = 1"
    by auto
  from concurrency_cap[OF s(1)]
  have "maxConcurrent s \<le> activeRequests s \<longrightarrow>
          started (process_loop s) = started s \<and> in_flight (process_loop s) = in_flight s"
    by blast
  then have "started (process_loop s) = started s \<and> in_flight (process_loop s) = in_flight s"
    using c(2) act by simp
  with s act c show ?thesis by auto
qed

text \<open>
  With the default of three attempts: timeout, rate limit, then success fulfils with
  42; three failures reject with the third error; a terminal error rejects at once;
  after one timeout the request is pending with \<open>attempts = 1\<close>.
\<close>

theorem retry_policy_witness:
  "(\<exists>s. rq_run fails_twice_then_succeeds (new_RequestQueue default_options 1000) = Some s
        \<and> retryAttempts s = 3 \<and> settled_as s 0 = [Fulfilled 42])
   \<and> (\<exists>s. rq_run fails_three_times (new_RequestQueue default_options 1000) = Some s
        \<and> settled_as s 0 = [RejectedWith timeout_error])
   \<and> (\<exists>s. rq_run fails_terminally (new_RequestQueue default_options 1000) = Some s
        \<and> settled_as s 0 = [RejectedWith terminal_error] \<and> pending_as s 0 = {#})
   \<and> (\<exists>s. rq_run fails_once (new_RequestQueue default_options 1000) = Some s
        \<and> settled_as s 0 = [] \<and> (\<exists>r. pending_as s 0 = {#r#} \<and> attempts r = 1))"
proof -
  have three: "js_or (map_option int (opt_retryAttempts default_options)) 3 = 3"
    by (simp add: default_options_def js_or_def)
  have "map_option next_rid (rq_run fails_twice_then_succeeds (new_RequestQueue default_options 1000)) = Some 1"
    by code_simp
  from run_exists[OF this] obtain s1 where
    s1: "rq_run fails_twice_then_succeeds (new_RequestQueue default_options 1000) = Some s1" by blast
  have o1: "outcomes_of 0 fails_twice_then_succeeds = map Fails [timeout_error, rate_error] @ [Succeeds 42]"
    by (simp add: fails_twice_then_succeeds_def)
  note rp1 = retry_policy[OF s1, of 0]
  have r1: "retryAttempts s1 = 3" using rp1 three by simp
  have i1: "outcomes_of 0 fails_twice_then_succeeds = map Fails [timeout_error, rate_error] @ [Succeeds 42]
              \<and> list_all retried_error [timeout_error, rate_error]
              \<and> int (length [timeout_error, rate_error]) = retryAttempts s1 - 1
          \<longrightarrow> settled_as s1 0 = [Fulfilled 42] \<and> pending_as s1 0 = {#}"
    using rp1 by blast
  have A: "retryAttempts s1 = 3 \<and> settled_as s1 0 = [Fulfilled 42]"
    using r1 i1 o1 example_errors by simp
  have "map_option next_rid (rq_run fails_three_times (new_RequestQueue default_options 1000)) = Some 1"
    by code_simp
  from run_exists[OF this] obtain s2 where
    s2: "rq_run fails_three_times (new_RequestQueue default_options 1000) = Some s2" by blast
  have o2: "outcomes_of 0 fails_three_times = map Fails [timeout_error, rate_error, timeout_error]"
    by (simp add: fails_three_times_def)
  note rp2 = retry_policy[OF s2, of 0]
  have r2: "retryAttempts s2 = 3" using rp2 three by simp
  have i2: "outcomes_of 0 fails_three_times = map Fails [timeout_error, rate_error, timeout_error]
              \<and> list_all retried_error [timeout_error, rate_error, timeout_error]
              \<and> int (length [timeout_error, rate_error, timeout_error]) = retryAttempts s2
          \<longrightarrow> settled_as s2 0 = [RejectedWith (last [timeout_error, rate_error, timeout_error])]
              \<and> pending_as s2 0 = {#}"
    using rp2 by blast
  have B: "settled_as s2 0 = [RejectedWith timeout_error]"
    using r2 i2 o2 example_errors by simp
  have "map_option next_rid (rq_run fails_terminally (new_RequestQueue default_options 1000)) = Some 1"
    by code_simp
  from run_exists[OF this] obtain s3 where
    s3: "rq_run fails_terminally (new_RequestQueue default_options 1000) = Some s3" by blast
  have o3: "outcomes_of 0 fails_terminally = [] @ [Fails terminal_error]"
    by (simp add: fails_terminally_def)
  from retry_policy[OF s3, of 0]
  have i3: "outcomes_of 0 fails_terminally = [] @ [Fails terminal_error] \<and> \<not> retried_error terminal_error
          \<longrightarrow> settled_as s3 0 = [RejectedWith terminal_error] \<and> pending_as s3 0 = {#}"
    by blast
  have C: "settled_as s3 0 = [RejectedWith terminal_error] \<and> pending_as s3 0 = {#}"
    using i3 o3 example_errors(3) by blast
  have "map_option next_rid (rq_run fails_once (new_RequestQueue default_options 1000)) = Some 1"
    by code_simp
  from run_exists[OF this] obtain s4 where
    s4: "rq_run fails_once (new_RequestQueue default_options 1000) = Some s4" "next_rid s4 = 1" by blast
  have o4: "outcomes_of 0 fails_once = map Fails [timeout_error]"
    by (simp add: fails_once_def)
  note rp4 = retry_policy[OF s4(1), of 0]
  have r4: "retryAttempts s4 = 3" using rp4 three by simp
  have i4: "outcomes_of 0 fails_once = map Fails [timeout_error]
              \<and> list_all retried_error [timeout_error]
              \<and> int (length [timeout_error]) < retryAttempts s4 \<and> 0 < next_rid s4
          \<longrightarrow> settled_as s4 0 = []
              \<and> (\<exists>r. pending_as s4 0 = {#r#} \<and> attempts r = length [timeout_error])"
    using rp4 by blast
  have D: "settled_as s4 0 = [] \<and> (\<exists>r. pending_as s4 0 = {#r#} \<and> attempts r = 1)"
    using r4 i4 o4 example_errors(1) s4(2) by simp
  from s1 A s2 B s3 C s4(1) D show ?thesis by blast
qed

lemma unretried_view: "map attempts q = replicate (length q) 0 \<Longrightarrow> \<forall>r \<in> set q. attempts r = 0"
proof
  fix r assume a: "map attempts q = replicate (length q) 0" and r: "r \<in> set q"
  have "attempts r \<in> set (map attempts q)" using r by simp
  then show "attempts r = 0" unfolding a by simp
qed

text \<open>
  Five submissions with priorities 0, 1, 5, 5, 1, the first one running: the queue
  holds requests 2, 3 (priority 5), then 1, 4 (priority 1). After request 0 has been
  re-queued and started again, three more submissions leave the queue in order:
  requests 4, 5 (priority 7), 2 (priority 5), 3 (priority 1). While the re-queued
  request 0 waits at the head, with \<open>attempts = 1\<close>, the queue is ordered behind it.
  And in the state where the retry timer of request 0 is due, its firing puts request
  0 at the head.
\<close>

theorem queue_order_behind_requeued_witness:
  "(\<exists>s. rq_run mixed_priorities (new_RequestQueue one_at_a_time 1000) = Some s
        \<and> queue_view s = [(2, 5), (3, 5), (1, 1), (4, 1)]
        \<and> sorted_wrt served_before (queue s))
   \<and> (\<exists>s. rq_run retry_then_submitted (new_RequestQueue one_at_a_time 1000) = Some s
        \<and> queue_view s = [(4, 7), (5, 7), (2, 5), (3, 1)]
        \<and> sorted_wrt served_before (queue s))
   \<and> (\<exists>s. rq_run retry_requeued (new_RequestQueue one_at_a_time 1000) = Some s
        \<and> queue_view s = [(0, 0), (2, 5)] \<and> map attempts (queue s) = [1, 0]
        \<and> (\<exists>P S. queue s = P @ S \<and> sorted_wrt served_before S \<and> (\<forall>r \<in> set S. attempts r = 0)
               \<and> (P = [] \<or> 0 < attempts (last P))))
   \<and> (\<exists>s s'. rq_run retry_is_due (new_RequestQueue one_at_a_time 1000) = Some s
        \<and> queue_view s = [(2, 5)]
        \<and> rq_step (RetryTimerFires 0) s = Some s'
        \<and> (\<exists>due r k. (due, r) \<in> set (retry_timers s) \<and> rid r = 0 \<and> 0 < attempts r
               \<and> queue s' = drop k (r # queue s)))"
proof -
  let ?new = "new_RequestQueue one_at_a_time 1000 :: nat request_queue"
  have "map_option queue_view (rq_run mixed_priorities ?new) = Some [(2, 5), (3, 5), (1, 1), (4, 1)]"
    by code_simp
  from run_exists[OF this] obtain s where
    s: "rq_run mixed_priorities ?new = Some s"
       "queue_view s = [(2, 5), (3, 5), (1, 1), (4, 1)]" by blast
  have "map_option (\<lambda>s. map attempts (queue s)) (rq_run mixed_priorities ?new) = Some [0, 0, 0, 0]"
    by code_simp
  with s(1) have "map attempts (queue s) = replicate (length (queue s)) 0"
    by (auto simp: numeral_eq_Suc dest: map_eq_imp_length_eq)
  then have "\<forall>r \<in> set (queue s). attempts r = 0" by (rule unretried_view)
  with queue_order_behind_requeued[OF s(1)] have "sorted_wrt served_before (queue s)" by blast
  with s have A: "\<exists>s. rq_run mixed_priorities ?new = Some s
        \<and> queue_view s = [(2, 5), (3, 5), (1, 1), (4, 1)]
        \<and> sorted_wrt served_before (queue s)" by blast
  have "map_option queue_view (rq_run retry_then_submitted ?new) = Some [(4, 7), (5, 7), (2, 5), (3, 1)]"
    by code_simp
  from run_exists[OF this] obtain v where
    v: "rq_run retry_then_submitted ?new = Some v"
       "queue_view v = [(4, 7), (5, 7), (2, 5), (3, 1)]" by blast
  have "map_option (\<lambda>s. map attempts (queue s)) (rq_run retry_then_submitted ?new) = Some [0, 0, 0, 0]"
    by code_simp
  with v(1) have "map attempts (queue v) = replicate (length (queue v)) 0"
    by (auto simp: numeral_eq_Suc dest: map_eq_imp_length_eq)
  then have "\<forall>r \<in> set (queue v). attempts r = 0" by (rule unretried_view)
  with queue_order_behind_requeued[OF v(1)] have "sorted_wrt served_before (queue v)" by blast
  with v have B: "\<exists>s. rq_run retry_then_submitted ?new = Some s
        \<and> queue_view s = [(4, 7), (5, 7), (2, 5), (3, 1)]
        \<and> sorted_wrt served_before (queue s)" by blast
  have "map_option queue_view (rq_run retry_requeued ?new) = Some [(0, 0), (2, 5)]"
    by code_simp
  from run_exists[OF this] obtain w where
    w: "rq_run retry_requeued ?new = Some w" "queue_view w = [(0, 0), (2, 5)]" by blast
  have "map_option (\<lambda>s. map attempts (queue s)) (rq_run retry_requeued ?new) = Some [1, 0]"
    by code_simp
  with w(1) have wa: "map attempts (queue w) = [1, 0]" by simp
  from queue_order_behind_requeued[OF w(1)]
  have pw: "\<exists>P S. queue w = P @ S \<and> sorted_wrt served_before S \<and> (\<forall>r \<in> set S. attempts r = 0)
               \<and> (P = [] \<or> 0 < attempts (last P))" by blast
  have C: "\<exists>s. rq_run retry_requeued ?new = Some s
        \<and> queue_view s = [(0, 0), (2, 5)] \<and> map attempts (queue s) = [1, 0]
        \<and> (\<exists>P S. queue s = P @ S \<and> sorted_wrt served_before S \<and> (\<forall>r \<in> set S. attempts r = 0)
               \<and> (P = [] \<or> 0 < attempts (last P)))"
    by (rule exI[of _ w], intro conjI) (rule w wa pw)+
  have "map_option queue_view (rq_run retry_is_due ?new) = Some [(2, 5)]"
    by code_simp
  from run_exists[OF this] obtain u where
    u: "rq_run retry_is_due ?new = Some u" "queue_view u = [(2, 5)]" by blast
  from w(1) have "rq_run (retry_is_due @ [RetryTimerFires 0]) ?new = Some w"
    by (simp add: retry_requeued_def)
  then have st: "rq_step (RetryTimerFires 0) u = Some w"
    using u(1) by (cases "rq_step (RetryTimerFires 0) u") (simp_all add: rq_run_append del: rq_step.simps)
  from queue_order_behind_requeued[OF u(1)] st
  have "\<exists>due r k. (due, r) \<in> set (retry_timers u) \<and> rid r = 0 \<and> 0 < attempts r
           \<and> queue w = drop k (r # queue u)"
    by blast
  with u st have D: "\<exists>s s'. rq_run retry_is_due ?new = Some s
        \<and> queue_view s = [(2, 5)]
        \<and> rq_step (RetryTimerFires 0) s = Some s'
        \<and> (\<exists>due r k. (due, r) \<in> set (retry_timers s) \<and> rid r = 0 \<and> 0 < attempts r
               \<and> queue s' = drop k (r # queue s))" by blast
  from A B C D show ?thesis by (intro conjI)
qed

end
